theory Spec2Isabelle
  imports Complex_Main "HOL-Library.AList"
begin

section \<open>Data model\<close>

text \<open>
  The two modules \<^verbatim>\<open>id_stitcher.py\<close> and \<^verbatim>\<open>counter.py\<close> work on Python dictionaries.
  Frame numbers and track identifiers are Python integers. Pixel coordinates and
  thresholds are floating-point numbers: their type \<open>'f\<close> is left open, and the
  arithmetic on them is a parameter of every function that computes with them, so that
  nothing is assumed of rounding, of infinities or of NaN.
\<close>

type_synonym 'f point = "'f \<times> 'f"
type_synonym 'f box = "'f \<times> 'f \<times> 'f \<times> 'f"

datatype py_error = TypeError | ZeroDivisionError | KeyError

text \<open>
  The floating-point operations that the two modules use: subtraction, multiplication and
  division, the comparison \<^verbatim>\<open><\<close>, the literal \<^verbatim>\<open>0\<close>, the test \<^verbatim>\<open>x == 0\<close> that decides
  whether a Python division raises, and \<^verbatim>\<open>np.linalg.norm\<close> of a vector of two components.
\<close>

record 'f arith =
  f_sub :: "'f \<Rightarrow> 'f \<Rightarrow> 'f"
  f_mul :: "'f \<Rightarrow> 'f \<Rightarrow> 'f"
  f_div :: "'f \<Rightarrow> 'f \<Rightarrow> 'f"
  f_lt :: "'f \<Rightarrow> 'f \<Rightarrow> bool"
  f_zero :: 'f
  f_is_zero :: "'f \<Rightarrow> bool"
  f_norm :: "'f \<times> 'f \<Rightarrow> 'f"

text \<open>
  Python's \<^verbatim>\<open>min(a, b)\<close> and \<^verbatim>\<open>max(a, b)\<close> keep the first argument unless the second is
  strictly smaller, or strictly larger.
\<close>

definition py_min :: "'f arith \<Rightarrow> 'f \<Rightarrow> 'f \<Rightarrow> 'f" where
  "py_min ar a b = (if f_lt ar b a then b else a)"

definition py_max :: "'f arith \<Rightarrow> 'f \<Rightarrow> 'f \<Rightarrow> 'f" where
  "py_max ar a b = (if f_lt ar a b then b else a)"

text \<open>
  The arithmetic of the real numbers. It is used for the example inputs, whose
  coordinates are small integers, so that no operation rounds.
\<close>

definition exact :: "real arith" where
  "exact = \<lparr>f_sub = (\<lambda>x y. x - y), f_mul = (\<lambda>x y. x * y), f_div = (\<lambda>x y. x / y),
            f_lt = (\<lambda>x y. x < y), f_zero = 0, f_is_zero = (\<lambda>x. x = 0),
            f_norm = (\<lambda>(x, y). sqrt (x\<^sup>2 + y\<^sup>2))\<rparr>"


text \<open>
  What a Python call does: it returns a value, raises, or never comes back (the
  \<^verbatim>\<open>while\<close> loop of \<^verbatim>\<open>_get_master_id\<close> on a cyclic mapping).
\<close>

datatype 'a result = Return 'a | Raise py_error | Diverge

text \<open>
  A Track Record: the keys of the dictionary that the stitcher and the counter read or
  write. \<open>stitched\<close> is absent (\<open>None\<close>) until \<^verbatim>\<open>_apply_id_mapping\<close> sets it.
\<close>

record 'f track =
  track_id :: int
  center :: "'f point"
  bbox :: "'f box"
  stitched :: "bool option"

record 'f frame_data =
  frame :: int
  tracks :: "'f track list"

text \<open>
  A Track Segment as \<^verbatim>\<open>_build_track_segments\<close> keeps it. \<open>start_frame = None\<close> stands for
  the initial \<^verbatim>\<open>float('inf')\<close>; positions and boxes start as Python's \<^verbatim>\<open>None\<close>.
\<close>

record 'f segment =
  start_frame :: "int option"
  end_frame :: int
  start_position :: "'f point option"
  end_position :: "'f point option"
  start_bbox :: "'f box option"
  end_bbox :: "'f box option"
  frames :: "int list"

record 'f stitcher =
  max_frame_gap :: int
  position_threshold :: 'f
  size_similarity_threshold :: 'f

section \<open>The track segment builder\<close>

definition default_segment :: "'f segment" where
  "default_segment =
     \<lparr>start_frame = None, end_frame = 0, start_position = None, end_position = None,
      start_bbox = None, end_bbox = None, frames = []\<rparr>"

text \<open>\<^verbatim>\<open>frame_num < seg['start_frame']\<close>, where the right side may be infinity.\<close>

definition lt_start :: "int \<Rightarrow> int option \<Rightarrow> bool" where
  "lt_start n s = (case s of None \<Rightarrow> True | Some k \<Rightarrow> n < k)"

text \<open>
  Lines 82-94 of \<^verbatim>\<open>_build_track_segments\<close>: the frame number is appended, then the start
  and the end of the segment are moved when the frame lies outside them.
\<close>

definition extend_segment :: "int \<Rightarrow> 'f track \<Rightarrow> 'f segment \<Rightarrow> 'f segment" where
  "extend_segment frame_num tr seg =
     (let seg1 = seg\<lparr>frames := frames seg @ [frame_num]\<rparr>;
          seg2 = (if lt_start frame_num (start_frame seg1)
                  then seg1\<lparr>start_frame := Some frame_num,
                            start_position := Some (center tr),
                            start_bbox := Some (bbox tr)\<rparr>
                  else seg1)
      in if frame_num > end_frame seg2
         then seg2\<lparr>end_frame := frame_num,
                   end_position := Some (center tr),
                   end_bbox := Some (bbox tr)\<rparr>
         else seg2)"

text \<open>
  The body of the inner loop. The dictionary is an association list in insertion order; a
  \<^verbatim>\<open>defaultdict\<close> lookup of a new key adds the default at the end, as \<open>AList.update\<close>
  does.
\<close>

definition observe :: "int \<Rightarrow> 'f track \<Rightarrow> (int \<times> 'f segment) list \<Rightarrow> (int \<times> 'f segment) list" where
  "observe frame_num tr segments =
     (let seg = (case map_of segments (track_id tr) of None \<Rightarrow> default_segment | Some s \<Rightarrow> s)
      in AList.update (track_id tr) (extend_segment frame_num tr seg) segments)"

definition observe_frame :: "(int \<times> 'f segment) list \<Rightarrow> 'f frame_data \<Rightarrow> (int \<times> 'f segment) list" where
  "observe_frame segments fd = foldl (\<lambda>segs tr. observe (frame fd) tr segs) segments (tracks fd)"

definition build_track_segments :: "'f frame_data list \<Rightarrow> (int \<times> 'f segment) list" where
  "build_track_segments results = foldl observe_frame [] results"

section \<open>The merge candidate resolver\<close>

definition get_bbox_size :: "'f arith \<Rightarrow> 'f box \<Rightarrow> 'f" where
  "get_bbox_size ar b =
     (case b of (x1, y1, x2, y2) \<Rightarrow> f_mul ar (f_sub ar x2 x1) (f_sub ar y2 y1))"

text \<open>\<^verbatim>\<open>np.linalg.norm(np.array(p) - np.array(q))\<close> for two points.\<close>

definition norm_diff :: "'f arith \<Rightarrow> 'f point \<Rightarrow> 'f point \<Rightarrow> 'f" where
  "norm_diff ar p q = f_norm ar (f_sub ar (fst p) (fst q), f_sub ar (snd p) (snd q))"

text \<open>\<^verbatim>\<open>min(size_a, size_b) / max(size_a, size_b)\<close> on Python floats.\<close>

definition size_ratio :: "'f arith \<Rightarrow> 'f \<Rightarrow> 'f \<Rightarrow> py_error + 'f" where
  "size_ratio ar size_a size_b =
     (if f_is_zero ar (py_max ar size_a size_b) then Inl ZeroDivisionError
      else Inr (f_div ar (py_min ar size_a size_b) (py_max ar size_a size_b)))"

text \<open>
  The distance and size test, written twice in the source (lines 122-133 and 142-152):
  \<open>pe\<close> is the end position of the earlier segment and \<open>ps\<close> the start position of the
  later one; \<open>box_a\<close> and \<open>box_b\<close> are the boxes from which \<^verbatim>\<open>size_a\<close> and \<^verbatim>\<open>size_b\<close> are
  taken, those of the first and of the second track of the pair. A \<^verbatim>\<open>None\<close> makes numpy,
  or the tuple unpacking of \<^verbatim>\<open>_get_bbox_size\<close>, raise a TypeError.
\<close>

definition proximity ::
  "'f arith \<Rightarrow> 'f stitcher \<Rightarrow> 'f point option \<Rightarrow> 'f point option
     \<Rightarrow> 'f box option \<Rightarrow> 'f box option \<Rightarrow> py_error + bool" where
  "proximity ar cfg pe ps box_a box_b =
     (case (pe, ps) of
        (Some p, Some q) \<Rightarrow>
          (case (box_a, box_b) of
             (Some b1, Some b2) \<Rightarrow>
               (case size_ratio ar (get_bbox_size ar b1) (get_bbox_size ar b2) of
                  Inl e \<Rightarrow> Inl e
                | Inr r \<Rightarrow> Inr (f_lt ar (norm_diff ar p q) (position_threshold cfg)
                              \<and> f_lt ar (size_similarity_threshold cfg) r))
           | _ \<Rightarrow> Inl TypeError)
      | _ \<Rightarrow> Inl TypeError)"

text \<open>
  \<^verbatim>\<open>frame_gap = later['start_frame'] - earlier['end_frame']; frame_gap <= max_frame_gap\<close>:
  an infinite start gives an infinite gap, which is never within the limit.
\<close>

definition gap_within :: "'f stitcher \<Rightarrow> int option \<Rightarrow> int \<Rightarrow> bool" where
  "gap_within cfg s e = (case s of None \<Rightarrow> False | Some k \<Rightarrow> k - e \<le> max_frame_gap cfg)"

text \<open>
  Lines 115-155 of \<^verbatim>\<open>_find_merge_candidates\<close>: the decision for one pair, \<open>None\<close> when
  \<^verbatim>\<open>should_merge\<close> stays false and \<open>Some (master_id, slave_id)\<close> otherwise.
\<close>

definition merge_decision ::
  "'f arith \<Rightarrow> 'f stitcher \<Rightarrow> int \<Rightarrow> 'f segment \<Rightarrow> int \<Rightarrow> 'f segment \<Rightarrow> py_error + (int \<times> int) option" where
  "merge_decision ar cfg track_id_a seg_a track_id_b seg_b =
     (if lt_start (end_frame seg_a) (start_frame seg_b) then
        (if gap_within cfg (start_frame seg_b) (end_frame seg_a) then
           (case proximity ar cfg (end_position seg_a) (start_position seg_b)
                   (end_bbox seg_a) (start_bbox seg_b) of
              Inl e \<Rightarrow> Inl e
            | Inr ok \<Rightarrow> Inr (if ok then Some (track_id_a, track_id_b) else None))
         else Inr None)
      else if lt_start (end_frame seg_b) (start_frame seg_a) then
        (if gap_within cfg (start_frame seg_a) (end_frame seg_b) then
           (case proximity ar cfg (end_position seg_b) (start_position seg_a)
                   (start_bbox seg_a) (end_bbox seg_b) of
              Inl e \<Rightarrow> Inl e
            | Inr ok \<Rightarrow> Inr (if ok then Some (track_id_b, track_id_a) else None))
         else Inr None)
      else Inr None)"

text \<open>
  \<^verbatim>\<open>_get_master_id\<close>: the loop follows the mapping while the identifier is a key. On a
  cyclic mapping it never ends, which is the value \<open>None\<close> here.
\<close>

partial_function (option) get_master_id :: "int \<Rightarrow> (int \<times> int) list \<Rightarrow> int option" where
  "get_master_id tid merge_map =
     (case map_of merge_map tid of
        None \<Rightarrow> Some tid
      | Some t \<Rightarrow> get_master_id t merge_map)"

text \<open>The body of the inner loop: the decision, then lines 157-161.\<close>

definition merge_pair ::
  "'f arith \<Rightarrow> 'f stitcher \<Rightarrow> (int \<times> 'f segment) list \<Rightarrow> int \<Rightarrow> 'f segment \<Rightarrow> int \<Rightarrow> (int \<times> int) list
     \<Rightarrow> (int \<times> int) list result" where
  "merge_pair ar cfg segments track_id_a seg_a track_id_b merge_map =
     (case map_of segments track_id_b of
        None \<Rightarrow> Raise KeyError
      | Some seg_b \<Rightarrow>
          (case merge_decision ar cfg track_id_a seg_a track_id_b seg_b of
             Inl e \<Rightarrow> Raise e
           | Inr None \<Rightarrow> Return merge_map
           | Inr (Some (master_id, slave_id)) \<Rightarrow>
               (case get_master_id master_id merge_map of
                  None \<Rightarrow> Diverge
                | Some final_master \<Rightarrow> Return (AList.update slave_id final_master merge_map))))"

fun merge_inner ::
  "'f arith \<Rightarrow> 'f stitcher \<Rightarrow> (int \<times> 'f segment) list \<Rightarrow> int \<Rightarrow> 'f segment \<Rightarrow> int list \<Rightarrow> (int \<times> int) list
     \<Rightarrow> (int \<times> int) list result" where
  "merge_inner ar cfg segments a seg_a [] merge_map = Return merge_map"
| "merge_inner ar cfg segments a seg_a (b # bs) merge_map =
     (case merge_pair ar cfg segments a seg_a b merge_map of
        Return m \<Rightarrow> merge_inner ar cfg segments a seg_a bs m
      | Raise e \<Rightarrow> Raise e
      | Diverge \<Rightarrow> Diverge)"

text \<open>
  The outer loop: \<open>a # rest\<close> is \<^verbatim>\<open>track_ids[i:]\<close>, so \<open>rest\<close> is \<^verbatim>\<open>track_ids[i + 1:]\<close>.
\<close>

fun merge_outer ::
  "'f arith \<Rightarrow> 'f stitcher \<Rightarrow> (int \<times> 'f segment) list \<Rightarrow> int list \<Rightarrow> (int \<times> int) list
     \<Rightarrow> (int \<times> int) list result" where
  "merge_outer ar cfg segments [] merge_map = Return merge_map"
| "merge_outer ar cfg segments (a # rest) merge_map =
     (case map_of segments a of
        None \<Rightarrow> Raise KeyError
      | Some seg_a \<Rightarrow>
          (case merge_inner ar cfg segments a seg_a rest merge_map of
             Return m \<Rightarrow> merge_outer ar cfg segments rest m
           | Raise e \<Rightarrow> Raise e
           | Diverge \<Rightarrow> Diverge))"

definition find_merge_candidates ::
  "'f arith \<Rightarrow> 'f stitcher \<Rightarrow> (int \<times> 'f segment) list \<Rightarrow> (int \<times> int) list result" where
  "find_merge_candidates ar cfg segments = merge_outer ar cfg segments (sort (map fst segments)) []"

section \<open>The ID remapper\<close>

text \<open>
  \<^verbatim>\<open>_apply_id_mapping\<close> writes into the track dictionaries it is given, and the list it
  returns holds the same dictionary objects. To follow this sharing, the caller's Frame
  Records hold addresses of track dictionaries, and a store maps each address to the
  dictionary's present contents.
\<close>

type_synonym addr = nat
type_synonym 'f store = "addr \<Rightarrow> 'f track"

record frame_ref =
  rframe :: int
  rtracks :: "addr list"

text \<open>Reading a sequence of Frame Records through the store.\<close>

definition load :: "'f store \<Rightarrow> frame_ref list \<Rightarrow> 'f frame_data list" where
  "load st results = map (\<lambda>fr. \<lparr>frame = rframe fr, tracks = map st (rtracks fr)\<rparr>) results"

text \<open>Lines 181-183: the loop over the keys of \<^verbatim>\<open>merge_map\<close>.\<close>

fun expand_map :: "int list \<Rightarrow> (int \<times> int) list \<Rightarrow> (int \<times> int) list \<Rightarrow> (int \<times> int) list result" where
  "expand_map [] merge_map expanded_map = Return expanded_map"
| "expand_map (old_id # ks) merge_map expanded_map =
     (case get_master_id old_id merge_map of
        None \<Rightarrow> Diverge
      | Some m \<Rightarrow> expand_map ks merge_map (AList.update old_id m expanded_map))"

text \<open>Lines 190-199: one track dictionary is updated in place and appended to \<^verbatim>\<open>new_tracks\<close>.\<close>

definition remap_track :: "(int \<times> int) list \<Rightarrow> addr list \<times> 'f store \<Rightarrow> addr \<Rightarrow> addr list \<times> 'f store" where
  "remap_track expanded_map acc p =
     (case acc of (new_tracks, st) \<Rightarrow>
        (let tr = st p;
             tr' = (case map_of expanded_map (track_id tr) of
                      Some m \<Rightarrow> tr\<lparr>track_id := m, stitched := Some True\<rparr>
                    | None \<Rightarrow> tr\<lparr>stitched := Some False\<rparr>)
         in (new_tracks @ [p], st(p := tr'))))"

definition remap_frame ::
  "(int \<times> int) list \<Rightarrow> frame_ref list \<times> 'f store \<Rightarrow> frame_ref \<Rightarrow> frame_ref list \<times> 'f store" where
  "remap_frame expanded_map acc frame_data =
     (case acc of (stitched_results, st) \<Rightarrow>
        (case foldl (remap_track expanded_map) ([], st) (rtracks frame_data) of
           (new_tracks, st') \<Rightarrow>
             (stitched_results @ [frame_data\<lparr>rtracks := new_tracks\<rparr>], st')))"

definition apply_id_mapping ::
  "frame_ref list \<Rightarrow> (int \<times> int) list \<Rightarrow> 'f store \<Rightarrow> (frame_ref list \<times> 'f store) result" where
  "apply_id_mapping results merge_map st =
     (case expand_map (map fst merge_map) merge_map [] of
        Return expanded_map \<Rightarrow> Return (foldl (remap_frame expanded_map) ([], st) results)
      | Raise e \<Rightarrow> Raise e
      | Diverge \<Rightarrow> Diverge)"

definition stitch_tracks ::
  "'f arith \<Rightarrow> 'f stitcher \<Rightarrow> frame_ref list \<Rightarrow> 'f store \<Rightarrow> (frame_ref list \<times> 'f store) result" where
  "stitch_tracks ar cfg tracking_results st =
     (let track_segments = build_track_segments (load st tracking_results)
      in case find_merge_candidates ar cfg track_segments of
           Return merge_map \<Rightarrow> apply_id_mapping tracking_results merge_map st
         | Raise e \<Rightarrow> Raise e
         | Diverge \<Rightarrow> Diverge)"

record statistics =
  original_unique_ids :: int
  stitched_unique_ids :: int
  ids_merged :: int
  reduction_percentage :: real

definition count_unique_ids :: "'f frame_data list \<Rightarrow> int" where
  "count_unique_ids results = int (length (remdups (concat (map (\<lambda>fd. map track_id (tracks fd)) results))))"

definition get_statistics :: "'f frame_data list \<Rightarrow> 'f frame_data list \<Rightarrow> py_error + statistics" where
  "get_statistics original_results stitched_results =
     (let original_count = count_unique_ids original_results;
          stitched_count = count_unique_ids stitched_results
      in if original_count = 0 then Inl ZeroDivisionError
         else Inr \<lparr>original_unique_ids = original_count,
                   stitched_unique_ids = stitched_count,
                   ids_merged = original_count - stitched_count,
                   reduction_percentage =
                     real_of_int (original_count - stitched_count) / real_of_int original_count * 100\<rparr>)"

section \<open>The line crossing counter\<close>

datatype direction = IN | OUT

record 'f event =
  ev_frame :: int
  ev_track_id :: int
  ev_direction :: direction
  ev_position :: "'f point"
  ev_count_in :: int
  ev_count_out :: int

text \<open>
  The attributes of a \<^verbatim>\<open>LineCrossingCounter\<close>. \<open>track_history\<close> is a \<^verbatim>\<open>defaultdict\<close> of
  bounded deques: an identifier never seen has the empty history. \<open>history_length\<close> is
  the \<^verbatim>\<open>maxlen\<close> of the deques, a natural number.
\<close>

record 'f counter =
  line_start :: "'f point"
  line_end :: "'f point"
  min_frames_between :: int
  history_length :: nat
  track_history :: "int \<Rightarrow> (int \<times> 'f point) list"
  last_crossing_frame :: "int \<rightharpoonup> int"
  count_in :: int
  count_out :: int
  events :: "'f event list"

definition init_counter :: "'f point \<Rightarrow> 'f point \<Rightarrow> int \<Rightarrow> nat \<Rightarrow> 'f counter" where
  "init_counter ls le min_frames_between_crossings position_history_length =
     \<lparr>line_start = ls, line_end = le,
      min_frames_between = min_frames_between_crossings,
      history_length = position_history_length,
      track_history = (\<lambda>_. []),
      last_crossing_frame = Map.empty,
      count_in = 0, count_out = 0, events = []\<rparr>"

text \<open>\<^verbatim>\<open>deque.append\<close> on a deque with \<^verbatim>\<open>maxlen\<close>: the oldest entries fall out on the left.\<close>

definition deque_append :: "nat \<Rightarrow> 'a list \<Rightarrow> 'a \<Rightarrow> 'a list" where
  "deque_append maxlen d x = drop (length (d @ [x]) - maxlen) (d @ [x])"

definition ccw :: "'f arith \<Rightarrow> 'f point \<Rightarrow> 'f point \<Rightarrow> 'f point \<Rightarrow> bool" where
  "ccw ar A B C =
     f_lt ar (f_mul ar (f_sub ar (snd B) (snd A)) (f_sub ar (fst C) (fst A)))
             (f_mul ar (f_sub ar (snd C) (snd A)) (f_sub ar (fst B) (fst A)))"

definition segments_intersect :: "'f arith \<Rightarrow> 'f point \<Rightarrow> 'f point \<Rightarrow> 'f point \<Rightarrow> 'f point \<Rightarrow> bool" where
  "segments_intersect ar p1 p2 p3 p4 =
     (ccw ar p1 p3 p4 \<noteq> ccw ar p2 p3 p4 \<and> ccw ar p1 p2 p3 \<noteq> ccw ar p1 p2 p4)"

definition vec_sub :: "'f arith \<Rightarrow> 'f point \<Rightarrow> 'f point \<Rightarrow> 'f point" where
  "vec_sub ar p q = (f_sub ar (fst p) (fst q), f_sub ar (snd p) (snd q))"

definition get_crossing_direction ::
  "'f arith \<Rightarrow> 'f point \<Rightarrow> 'f point \<Rightarrow> 'f point \<Rightarrow> 'f point \<Rightarrow> direction" where
  "get_crossing_direction ar ls le pos1 pos2 =
     (let line_vec = vec_sub ar le ls;
          movement_vec = vec_sub ar pos2 pos1;
          cross = f_sub ar (f_mul ar (fst line_vec) (snd movement_vec))
                           (f_mul ar (snd line_vec) (fst movement_vec))
      in if f_lt ar (f_zero ar) cross then IN else OUT)"

text \<open>The returned dictionary \<^verbatim>\<open>{'direction': d}\<close> is \<open>Some d\<close>.\<close>

definition check_line_crossing :: "'f arith \<Rightarrow> 'f counter \<Rightarrow> 'f point \<Rightarrow> 'f point \<Rightarrow> direction option" where
  "check_line_crossing ar c pos1 pos2 =
     (if segments_intersect ar pos1 pos2 (line_start c) (line_end c)
      then Some (get_crossing_direction ar (line_start c) (line_end c) pos1 pos2)
      else None)"

text \<open>Lines 74-77: the test that makes the loop skip a track that crossed recently.\<close>

definition cooling_down :: "'f counter \<Rightarrow> int \<Rightarrow> int \<Rightarrow> bool" where
  "cooling_down c frame_num tid =
     (case last_crossing_frame c tid of
        None \<Rightarrow> False
      | Some l \<Rightarrow> frame_num - l < min_frames_between c)"

text \<open>Lines 88-107: the counters, the event and the last crossing frame.\<close>

definition record_crossing :: "int \<Rightarrow> int \<Rightarrow> 'f point \<Rightarrow> direction \<Rightarrow> 'f counter \<Rightarrow> 'f counter \<times> 'f event" where
  "record_crossing frame_num tid pos d c =
     (let c1 = (if d = IN then c\<lparr>count_in := count_in c + 1\<rparr>
                else c\<lparr>count_out := count_out c + 1\<rparr>);
          ev = \<lparr>ev_frame = frame_num, ev_track_id = tid, ev_direction = d,
                ev_position = pos, ev_count_in = count_in c1, ev_count_out = count_out c1\<rparr>
      in (c1\<lparr>events := events c1 @ [ev],
              last_crossing_frame := (last_crossing_frame c1)(tid \<mapsto> frame_num)\<rparr>, ev))"

text \<open>
  The body of the loop of \<^verbatim>\<open>process_frame\<close> for one track; the second component is
  \<^verbatim>\<open>frame_events\<close>.
\<close>

definition process_track :: "'f arith \<Rightarrow> int \<Rightarrow> 'f counter \<times> 'f event list \<Rightarrow> 'f track \<Rightarrow> 'f counter \<times> 'f event list" where
  "process_track ar frame_num acc tr =
     (case acc of (c, frame_events) \<Rightarrow>
        (let tid = track_id tr;
             h = deque_append (history_length c) (track_history c tid) (frame_num, center tr);
             c1 = c\<lparr>track_history := (track_history c)(tid := h)\<rparr>
         in if length h < 2 then (c1, frame_events)
            else if cooling_down c1 frame_num tid then (c1, frame_events)
            else (case check_line_crossing ar c1 (snd (h ! (length h - 2))) (center tr) of
                    None \<Rightarrow> (c1, frame_events)
                  | Some d \<Rightarrow>
                      (case record_crossing frame_num tid (center tr) d c1 of
                         (c2, ev) \<Rightarrow> (c2, frame_events @ [ev])))))"

definition process_frame :: "'f arith \<Rightarrow> int \<Rightarrow> 'f track list \<Rightarrow> 'f counter \<Rightarrow> 'f counter \<times> 'f event list" where
  "process_frame ar frame_num trs c = foldl (process_track ar frame_num) (c, []) trs"

text \<open>The caller's loop (\<^verbatim>\<open>run.py\<close>, lines 133-136): one call per Frame Record.\<close>

definition process_all :: "'f arith \<Rightarrow> 'f counter \<Rightarrow> 'f frame_data list \<Rightarrow> 'f counter" where
  "process_all ar c results = foldl (\<lambda>c fd. fst (process_frame ar (frame fd) (tracks fd) c)) c results"

record summary =
  total_in :: int
  total_out :: int
  net :: int
  total_crossings :: int
  unique_tracks :: int

definition get_summary :: "'f counter \<Rightarrow> summary" where
  "get_summary c =
     \<lparr>total_in = count_in c, total_out = count_out c, net = count_in c - count_out c,
      total_crossings = int (length (events c)),
      unique_tracks = int (length (remdups (map ev_track_id (events c))))\<rparr>"

section \<open>Predicates of the specification\<close>

text \<open>
  The observations of a sequence in the order in which \<^verbatim>\<open>_build_track_segments\<close> visits
  them, each with the frame number of its Frame Record.
\<close>

definition observations :: "'f frame_data list \<Rightarrow> (int \<times> 'f track) list" where
  "observations results = concat (map (\<lambda>fd. map (\<lambda>tr. (frame fd, tr)) (tracks fd)) results)"

definition of_id :: "int \<Rightarrow> (int \<times> 'f track) set \<Rightarrow> (int \<times> 'f track) set" where
  "of_id t S = {(n, tr). (n, tr) \<in> S \<and> track_id tr = t}"

text \<open>The invariant of a Track Segment: a finite start that is not after the end.\<close>

definition span_ok :: "'f segment \<Rightarrow> bool" where
  "span_ok seg = (case start_frame seg of None \<Rightarrow> False | Some s \<Rightarrow> s \<le> end_frame seg)"

text \<open>
  Start and end of a segment are taken from observations in \<open>S\<close>, and a segment whose
  start frame is its end frame has one position and one box.
\<close>

definition drawn :: "(int \<times> 'f track) set \<Rightarrow> 'f segment \<Rightarrow> bool" where
  "drawn S seg =
     ((\<exists>(n, tr) \<in> S. start_frame seg = Some n \<and> start_position seg = Some (center tr)
                       \<and> start_bbox seg = Some (bbox tr))
    \<and> (\<exists>(n, tr) \<in> S. end_frame seg = n \<and> end_position seg = Some (center tr)
                       \<and> end_bbox seg = Some (bbox tr))
    \<and> (start_frame seg = Some (end_frame seg)
          \<longrightarrow> start_position seg = end_position seg \<and> start_bbox seg = end_bbox seg))"

definition built :: "(int \<times> 'f track) set \<Rightarrow> (int \<times> 'f segment) list \<Rightarrow> bool" where
  "built S segs =
     (distinct (map fst segs) \<and> fst ` set segs = (\<lambda>(n, tr). track_id tr) ` S
      \<and> (\<forall>t seg. map_of segs t = Some seg \<longrightarrow> span_ok seg \<and> drawn (of_id t S) seg))"

text \<open>A segment with all its fields filled in, as the builder leaves it.\<close>

definition observed :: "'f segment \<Rightarrow> bool" where
  "observed seg =
     (start_frame seg \<noteq> None \<and> start_position seg \<noteq> None \<and> end_position seg \<noteq> None
      \<and> start_bbox seg \<noteq> None \<and> end_bbox seg \<noteq> None)"

text \<open>The temporal order of two segments: the first ends strictly before the second starts.\<close>

definition precedes :: "'f segment \<Rightarrow> 'f segment \<Rightarrow> bool" where
  "precedes earlier later = (end_frame earlier < the (start_frame later))"

text \<open>
  The three conditions of the merge rule, in the words of the specification. The area of a
  box is its width times its height, and the distance of two points is the norm of their
  difference. The frame gap is at most \<open>max_frame_gap\<close>; the distance from the end
  position of the earlier segment to the start position of the later one is below
  \<open>position_threshold\<close>; and \<^verbatim>\<open>min(areaA, areaB) / max(areaA, areaB)\<close> is defined and above
  \<open>size_similarity_threshold\<close>, where A is the first track of the compared pair and B the
  second. \<open>later_first\<close> tells that the later track is the first of the pair.
\<close>

definition box_area :: "'f arith \<Rightarrow> 'f box \<Rightarrow> 'f" where
  "box_area ar b = (case b of (x1, y1, x2, y2) \<Rightarrow> f_mul ar (f_sub ar x2 x1) (f_sub ar y2 y1))"

definition euclid :: "'f arith \<Rightarrow> 'f point \<Rightarrow> 'f point \<Rightarrow> 'f" where
  "euclid ar p q = f_norm ar (f_sub ar (fst p) (fst q), f_sub ar (snd p) (snd q))"

definition similar_size :: "'f arith \<Rightarrow> 'f stitcher \<Rightarrow> 'f \<Rightarrow> 'f \<Rightarrow> bool" where
  "similar_size ar cfg area_a area_b =
     (\<not> f_is_zero ar (py_max ar area_a area_b)
      \<and> f_lt ar (size_similarity_threshold cfg)
              (f_div ar (py_min ar area_a area_b) (py_max ar area_a area_b)))"

definition spec_mergeable ::
  "'f arith \<Rightarrow> 'f stitcher \<Rightarrow> 'f segment \<Rightarrow> 'f segment \<Rightarrow> bool \<Rightarrow> bool" where
  "spec_mergeable ar cfg earlier later later_first =
     (let area_e = box_area ar (the (end_bbox earlier));
          area_l = box_area ar (the (start_bbox later))
      in the (start_frame later) - end_frame earlier \<le> max_frame_gap cfg
         \<and> f_lt ar (euclid ar (the (end_position earlier)) (the (start_position later)))
                 (position_threshold cfg)
         \<and> (if later_first then similar_size ar cfg area_l area_e
             else similar_size ar cfg area_e area_l))"

text \<open>
  The order that the resolver follows: the segment of \<open>v\<close> ends strictly before the
  segment of \<open>s\<close> starts. A mapping is backward when each key starts after its value has
  ended; \<open>edges\<close> is the mapping as a graph.
\<close>

definition before :: "(int \<times> 'f segment) list \<Rightarrow> int \<Rightarrow> int \<Rightarrow> bool" where
  "before segs v s =
     (\<exists>sv ss k. map_of segs v = Some sv \<and> map_of segs s = Some ss
                \<and> start_frame ss = Some k \<and> end_frame sv < k)"

definition backward :: "(int \<times> 'f segment) list \<Rightarrow> (int \<times> int) list \<Rightarrow> bool" where
  "backward segs m = (\<forall>s v. map_of m s = Some v \<longrightarrow> before segs v s)"

definition edges :: "(int \<times> int) list \<Rightarrow> (int \<times> int) set" where
  "edges m = {(s, v). map_of m s = Some v}"

definition spans_ok :: "(int \<times> 'f segment) list \<Rightarrow> bool" where
  "spans_ok segs = (\<forall>t seg. map_of segs t = Some seg \<longrightarrow> span_ok seg)"

text \<open>
  The event log of the counter: the number of events of one direction, and the property
  that each event holds the totals as they are once this event is counted.
\<close>

definition count_dir :: "direction \<Rightarrow> 'f event list \<Rightarrow> int" where
  "count_dir d evs = int (length (filter (\<lambda>e. ev_direction e = d) evs))"

definition running_totals :: "'f event list \<Rightarrow> bool" where
  "running_totals evs =
     (\<forall>n < length evs. ev_count_in (evs ! n) = count_dir IN (take (Suc n) evs)
                      \<and> ev_count_out (evs ! n) = count_dir OUT (take (Suc n) evs))"

definition totals_ok :: "'f counter \<Rightarrow> bool" where
  "totals_ok c =
     (count_in c = count_dir IN (events c) \<and> count_out c = count_dir OUT (events c)
      \<and> running_totals (events c))"

text \<open>
  One pass of the loop of \<^verbatim>\<open>process_frame\<close> from a counter: the events it adds, the
  counter it leaves, and a run of such passes over observations \<open>(frame_num, track)\<close>.
  \<open>new_events c c'\<close> are the events logged on the way from \<open>c\<close> to \<open>c'\<close>. A geometric
  crossing at a frame is a movement, from the previous history sample to the present
  center, that intersects the line, with at least two samples in the history.
\<close>

definition emitted :: "'f arith \<Rightarrow> int \<Rightarrow> 'f counter \<Rightarrow> 'f track \<Rightarrow> 'f event list" where
  "emitted ar n c tr = snd (process_track ar n (c, []) tr)"

definition after_track :: "'f arith \<Rightarrow> int \<Rightarrow> 'f counter \<Rightarrow> 'f track \<Rightarrow> 'f counter" where
  "after_track ar n c tr = fst (process_track ar n (c, []) tr)"

definition track_steps :: "'f arith \<Rightarrow> 'f counter \<Rightarrow> (int \<times> 'f track) list \<Rightarrow> 'f counter" where
  "track_steps ar c obs = foldl (\<lambda>c (n, tr). after_track ar n c tr) c obs"

definition new_events :: "'f counter \<Rightarrow> 'f counter \<Rightarrow> 'f event list" where
  "new_events c c' = drop (length (events c)) (events c')"

definition geometric_crossing :: "'f arith \<Rightarrow> int \<Rightarrow> 'f counter \<Rightarrow> 'f track \<Rightarrow> bool" where
  "geometric_crossing ar n c tr =
     (let h = deque_append (history_length c) (track_history c (track_id tr)) (n, center tr)
      in 2 \<le> length h
         \<and> segments_intersect ar (snd (h ! (length h - 2))) (center tr) (line_start c) (line_end c))"

text \<open>
  The pairs that the two loops of \<^verbatim>\<open>_find_merge_candidates\<close> compare, in their order: each
  identifier with every identifier after it in the sorted list.
\<close>

fun pairs :: "int list \<Rightarrow> (int \<times> int) list" where
  "pairs [] = []"
| "pairs (a # rest) = map (\<lambda>b. (a, b)) rest @ pairs rest"

text \<open>
  The track \<open>ma\<close> ends before the track \<open>sl\<close> starts, and the two meet the three conditions
  of the merge rule. The compared pair has the smaller identifier first.
\<close>

definition joins :: "'f arith \<Rightarrow> 'f stitcher \<Rightarrow> (int \<times> 'f segment) list \<Rightarrow> int \<Rightarrow> int \<Rightarrow> bool" where
  "joins ar cfg segs ma sl =
     (\<exists>sm ss. map_of segs ma = Some sm \<and> map_of segs sl = Some ss \<and> precedes sm ss
              \<and> spec_mergeable ar cfg sm ss (sl < ma))"

text \<open>
  The decisions that the resolver takes over a set of compared pairs, as pairs of master
  and slave, and a mapping whose keys are the slaves of these decisions and whose values
  are the master of such a decision or a track that ended before this master started.
\<close>

definition decided ::
  "'f arith \<Rightarrow> 'f stitcher \<Rightarrow> (int \<times> 'f segment) list \<Rightarrow> (int \<times> int) set \<Rightarrow> (int \<times> int) set" where
  "decided ar cfg segs P =
     {(ma, sl). \<exists>(a, b) \<in> P. \<exists>sa sb. map_of segs a = Some sa \<and> map_of segs b = Some sb
                  \<and> merge_decision ar cfg a sa b sb = Inr (Some (ma, sl))}"

definition recorded :: "(int \<times> 'f segment) list \<Rightarrow> (int \<times> int) set \<Rightarrow> (int \<times> int) list \<Rightarrow> bool" where
  "recorded segs D m =
     (fst ` set m = snd ` D
      \<and> (\<forall>s v. map_of m s = Some v \<longrightarrow> (\<exists>ma. (ma, s) \<in> D \<and> (v = ma \<or> before segs v ma))))"

text \<open>
  The cross product of the specification,
  \<open>line.x * (pos2.y - pos1.y) - line.y * (pos2.x - pos1.x)\<close> with
  \<open>line = line_end - line_start\<close>, in the arithmetic of the program; and the position
  from which the counter takes the movement of a track, the second last sample of its
  history once the present sample is appended.
\<close>

definition cross_product :: "'f arith \<Rightarrow> 'f point \<Rightarrow> 'f point \<Rightarrow> 'f point \<Rightarrow> 'f point \<Rightarrow> 'f" where
  "cross_product ar ls le pos1 pos2 =
     f_sub ar (f_mul ar (f_sub ar (fst le) (fst ls)) (f_sub ar (snd pos2) (snd pos1)))
              (f_mul ar (f_sub ar (snd le) (snd ls)) (f_sub ar (fst pos2) (fst pos1)))"

definition previous_center :: "'f counter \<Rightarrow> int \<Rightarrow> 'f track \<Rightarrow> 'f point" where
  "previous_center c n tr =
     (let h = deque_append (history_length c) (track_history c (track_id tr)) (n, center tr)
      in snd (h ! (length h - 2)))"

section \<open>Example inputs\<close>

text \<open>The thresholds that \<^verbatim>\<open>run.py\<close> passes to the stitcher.\<close>

definition default_stitcher :: "real stitcher" where
  "default_stitcher =
     \<lparr>max_frame_gap = 30, position_threshold = 150, size_similarity_threshold = 1 / 2\<rparr>"

text \<open>A track that stands at \<open>(x, 0)\<close> with a box of 10 by 20 pixels.\<close>

definition still :: "int \<Rightarrow> real \<Rightarrow> real track" where
  "still i x = \<lparr>track_id = i, center = (x, 0), bbox = (x, 0, x + 10, 20), stitched = None\<rparr>"

text \<open>The segment of a track that \<open>still\<close> gives and that is seen in frame \<open>n\<close> only.\<close>

definition seg_of :: "int \<Rightarrow> real \<Rightarrow> real segment" where
  "seg_of n x =
     \<lparr>start_frame = Some n, end_frame = n,
      start_position = Some (x, 0), end_position = Some (x, 0),
      start_bbox = Some (x, 0, x + 10, 20), end_bbox = Some (x, 0, x + 10, 20),
      frames = [n]\<rparr>"

text \<open>
  Three fragments of one walk from left to right, whose identifiers decrease in time:
  identifier 3 in frame 1, identifier 2 in frame 5, identifier 1 in frame 9, 100 pixels
  apart each.
\<close>

definition chain_frames :: "real frame_data list" where
  "chain_frames =
     [\<lparr>frame = 1, tracks = [still 3 0]\<rparr>, \<lparr>frame = 5, tracks = [still 2 100]\<rparr>,
      \<lparr>frame = 9, tracks = [still 1 200]\<rparr>]"

text \<open>
  The same three fragments with identifiers that increase in time, and a sequence in
  which the third fragment is close to the first and to the second.
\<close>

definition rising_frames :: "real frame_data list" where
  "rising_frames =
     [\<lparr>frame = 1, tracks = [still 1 0]\<rparr>, \<lparr>frame = 5, tracks = [still 2 100]\<rparr>,
      \<lparr>frame = 9, tracks = [still 3 200]\<rparr>]"

text \<open>
  Two tracks of one frame, 100 pixels apart, and a third track four frames later that
  stands between them.
\<close>

definition forked_frames :: "real frame_data list" where
  "forked_frames =
     [\<lparr>frame = 1, tracks = [still 1 0, still 2 100]\<rparr>, \<lparr>frame = 5, tracks = [still 3 50]\<rparr>]"

text \<open>A track in frame 1 and, four frames later, two tracks of one frame close to it.\<close>

definition twin_frames :: "real frame_data list" where
  "twin_frames =
     [\<lparr>frame = 1, tracks = [still 1 0]\<rparr>, \<lparr>frame = 5, tracks = [still 2 50, still 3 60]\<rparr>]"

text \<open>Two fragments of one walk: identifier 1 in frame 10, identifier 2 in frame 15.\<close>

definition pair_frames :: "real frame_data list" where
  "pair_frames = [\<lparr>frame = 10, tracks = [still 1 100]\<rparr>, \<lparr>frame = 15, tracks = [still 2 110]\<rparr>]"

text \<open>Two tracks whose boxes have no area.\<close>

definition flat :: "int \<Rightarrow> real track" where
  "flat i = \<lparr>track_id = i, center = (5, 5), bbox = (5, 5, 5, 5), stitched = None\<rparr>"

definition flat_frames :: "real frame_data list" where
  "flat_frames = [\<lparr>frame = 1, tracks = [flat 1]\<rparr>, \<lparr>frame = 2, tracks = [flat 2]\<rparr>]"

text \<open>
  A caller that holds two Frame Records with one track dictionary each, at the addresses 0
  and 1: identifier 1 in frame 10 and identifier 2 in frame 15, 10 pixels further.
\<close>

definition caller_store :: "real store" where
  "caller_store = (\<lambda>p. if p = 0 then still 1 100 else still 2 110)"

definition caller_results :: "frame_ref list" where
  "caller_results = [\<lparr>rframe = 10, rtracks = [0]\<rparr>, \<lparr>rframe = 15, rtracks = [1]\<rparr>]"

text \<open>
  The counting scenario of the specification: a line from (0, 0) to (0, 100), a cooldown of
  30 frames, and a track that walks along \<open>y = 50\<close>.
\<close>

definition gate :: "real counter" where
  "gate = init_counter (0, 0) (0, 100) 30 10"

definition walker :: "real \<Rightarrow> real track" where
  "walker x = \<lparr>track_id = 1, center = (x, 50), bbox = (x - 5, 40, x + 5, 60), stitched = None\<rparr>"

definition walk :: "real frame_data list" where
  "walk = [\<lparr>frame = 1, tracks = [walker (- 10)]\<rparr>, \<lparr>frame = 2, tracks = [walker 10]\<rparr>]"

definition two_frames :: "real frame_data list" where
  "two_frames =
     [\<lparr>frame = 1, tracks = [\<lparr>track_id = 7, center = (5, 5), bbox = (0, 0, 10, 10), stitched = None\<rparr>]\<rparr>,
      \<lparr>frame = 2, tracks = [\<lparr>track_id = 7, center = (6, 5), bbox = (1, 0, 11, 10), stitched = None\<rparr>,
                            \<lparr>track_id = 8, center = (50, 5), bbox = (45, 0, 55, 10), stitched = None\<rparr>]\<rparr>]"

section \<open>Properties of the track segment builder\<close>

lemma foldl_observe_tracks:
  "foldl (\<lambda>segs tr. observe k tr segs) s ts
     = foldl (\<lambda>s (n, tr). observe n tr s) s (map (\<lambda>tr. (k, tr)) ts)"
  by (induction ts arbitrary: s) simp_all

lemma foldl_observe_frame:
  "foldl observe_frame segs results
     = foldl (\<lambda>s (n, tr). observe n tr s) segs (observations results)"
proof (induction results arbitrary: segs)
  case Nil
  show ?case by (simp add: observations_def)
next
  case (Cons fd rest)
  show ?case
    using Cons.IH [of "observe_frame segs fd"]
    by (simp add: observations_def observe_frame_def foldl_observe_tracks)
qed

lemma build_as_fold:
  "build_track_segments results = foldl (\<lambda>s (n, tr). observe n tr s) [] (observations results)"
  by (simp add: build_track_segments_def foldl_observe_frame)

lemma map_of_observe:
  "map_of (observe n tr segs) t =
     (if t = track_id tr
      then Some (extend_segment n tr (case map_of segs t of None \<Rightarrow> default_segment | Some s \<Rightarrow> s))
      else map_of segs t)"
  by (simp add: observe_def Let_def AList.update_conv')

lemma keys_observe: "fst ` set (observe n tr segs) = insert (track_id tr) (fst ` set segs)"
  by (simp add: observe_def Let_def AList.dom_update)

lemma distinct_observe: "distinct (map fst segs) \<Longrightarrow> distinct (map fst (observe n tr segs))"
  by (simp add: observe_def Let_def AList.distinct_update)

lemma span_ok_extend_default: "span_ok (extend_segment n tr default_segment)"
  by (simp add: span_ok_def extend_segment_def default_segment_def lt_start_def Let_def)

lemma span_ok_extend: "span_ok seg \<Longrightarrow> span_ok (extend_segment n tr seg)"
  by (auto simp: span_ok_def extend_segment_def lt_start_def Let_def split: option.splits)

lemma drawn_mono: "drawn S seg \<Longrightarrow> S \<subseteq> T \<Longrightarrow> drawn T seg"
  unfolding drawn_def by blast

lemma drawn_extend_default:
  "1 \<le> n \<Longrightarrow> drawn {(n, tr)} (extend_segment n tr default_segment)"
  by (simp add: drawn_def extend_segment_def default_segment_def lt_start_def Let_def)

lemma drawn_extend:
  assumes "drawn S seg" "span_ok seg"
  shows "drawn (insert (n, tr) S) (extend_segment n tr seg)"
  using assms
  unfolding drawn_def span_ok_def extend_segment_def lt_start_def Let_def
  by (auto split: option.splits)

lemma built_observe:
  assumes "built S segs" "1 \<le> n"
  shows "built (insert (n, tr) S) (observe n tr segs)"
proof -
  have other: "of_id t (insert (n, tr) S) = of_id t S" if "t \<noteq> track_id tr" for t
    using that by (auto simp: of_id_def)
  have same: "of_id (track_id tr) (insert (n, tr) S) = insert (n, tr) (of_id (track_id tr) S)"
    by (auto simp: of_id_def)
  have "span_ok seg' \<and> drawn (of_id t (insert (n, tr) S)) seg'"
    if look: "map_of (observe n tr segs) t = Some seg'" for t seg'
  proof (cases "t = track_id tr")
    case False
    with look assms(1) show ?thesis by (simp add: map_of_observe built_def other)
  next
    case True
    show ?thesis
    proof (cases "map_of segs (track_id tr)")
      case None
      with look True have seg': "seg' = extend_segment n tr default_segment"
        by (simp add: map_of_observe)
      have "drawn {(n, tr)} seg'" unfolding seg' by (rule drawn_extend_default [OF assms(2)])
      then have "drawn (of_id t (insert (n, tr) S)) seg'"
        by (rule drawn_mono) (simp add: True same)
      then show ?thesis by (simp add: seg' span_ok_extend_default)
    next
      case (Some seg)
      with look True have seg': "seg' = extend_segment n tr seg"
        by (simp add: map_of_observe)
      from Some assms(1) have ok: "span_ok seg" "drawn (of_id (track_id tr) S) seg"
        by (simp_all add: built_def)
      show ?thesis
        unfolding seg' True same
        using drawn_extend [OF ok(2) ok(1)] span_ok_extend [OF ok(1)] by simp
    qed
  qed
  moreover have "distinct (map fst (observe n tr segs))"
    using assms(1) by (simp add: built_def distinct_observe)
  moreover have "fst ` set (observe n tr segs) = (\<lambda>(n, tr). track_id tr) ` insert (n, tr) S"
    using assms(1) by (simp add: built_def keys_observe)
  ultimately show ?thesis unfolding built_def by blast
qed

lemma built_foldl:
  assumes "built S segs" "\<forall>(n, tr) \<in> set os. 1 \<le> n"
  shows "built (S \<union> set os) (foldl (\<lambda>s (n, tr). observe n tr s) segs os)"
  using assms
proof (induction os arbitrary: S segs)
  case Nil
  then show ?case by simp
next
  case (Cons o1 os)
  obtain n tr where o1: "o1 = (n, tr)" by (cases o1)
  from Cons.prems o1 have "built (insert (n, tr) S) (observe n tr segs)"
    by (simp add: built_observe)
  from Cons.IH [OF this] Cons.prems(2) o1 show ?case by simp
qed

lemma built_build:
  assumes "\<forall>fd \<in> set results. 1 \<le> frame fd"
  shows "built (set (observations results)) (build_track_segments results)"
proof -
  have "built {} []" by (simp add: built_def)
  moreover have "\<forall>(n, tr) \<in> set (observations results). 1 \<le> n"
    using assms by (auto simp: observations_def)
  ultimately show ?thesis
    using built_foldl [of "{}" "[]" "observations results"] by (simp add: build_as_fold)
qed

lemma span_ok_foldl:
  assumes "\<forall>t seg. map_of segs t = Some seg \<longrightarrow> span_ok seg"
  shows "\<forall>t seg. map_of (foldl (\<lambda>s (n, tr). observe n tr s) segs os) t = Some seg \<longrightarrow> span_ok seg"
  using assms
proof (induction os arbitrary: segs)
  case Nil
  then show ?case by simp
next
  case (Cons o1 os)
  obtain n tr where o1: "o1 = (n, tr)" by (cases o1)
  have "\<forall>t seg. map_of (observe n tr segs) t = Some seg \<longrightarrow> span_ok seg"
    using Cons.prems
    by (auto simp: map_of_observe span_ok_extend span_ok_extend_default split: option.splits if_splits)
  from Cons.IH [OF this] o1 show ?case by simp
qed

lemma span_ok_build: "map_of (build_track_segments results) t = Some seg \<Longrightarrow> span_ok seg"
  using span_ok_foldl [of "[]" "observations results"] by (simp add: build_as_fold)

lemma in_observations:
  "((n, tr) \<in> set (observations results)) = (\<exists>fd \<in> set results. n = frame fd \<and> tr \<in> set (tracks fd))"
  by (auto simp: observations_def)

text \<open>
  Claim C9. When every Frame Record has a frame number of at least 1, the builder returns
  exactly one segment for each track identifier that occurs in the sequence. Each segment
  has a finite start frame that is not after its end frame; its start frame, position and
  box are those of one observed Track Record of that identifier, and so are its end frame,
  position and box. When all observations of an identifier carry the same frame number,
  start and end frame are that number and the start and end position and box coincide.
\<close>

theorem build_track_segments_invariant:
  assumes "\<forall>fd \<in> set results. 1 \<le> frame fd"
  shows "distinct (map fst (build_track_segments results))
    \<and> set (map fst (build_track_segments results))
        = {track_id tr |fd tr. fd \<in> set results \<and> tr \<in> set (tracks fd)}
    \<and> (\<forall>(tid, seg) \<in> set (build_track_segments results).
          (\<exists>s. start_frame seg = Some s \<and> s \<le> end_frame seg)
        \<and> (\<exists>fd \<in> set results. \<exists>tr \<in> set (tracks fd). track_id tr = tid
              \<and> start_frame seg = Some (frame fd) \<and> start_position seg = Some (center tr)
              \<and> start_bbox seg = Some (bbox tr))
        \<and> (\<exists>fd \<in> set results. \<exists>tr \<in> set (tracks fd). track_id tr = tid
              \<and> end_frame seg = frame fd \<and> end_position seg = Some (center tr)
              \<and> end_bbox seg = Some (bbox tr))
        \<and> (\<forall>f. (\<forall>fd \<in> set results. \<forall>tr \<in> set (tracks fd). track_id tr = tid \<longrightarrow> frame fd = f)
              \<longrightarrow> start_frame seg = Some f \<and> end_frame seg = f
                  \<and> start_position seg = end_position seg \<and> start_bbox seg = end_bbox seg))"
proof -
  let ?segs = "build_track_segments results"
  let ?S = "set (observations results)"
  have b: "built ?S ?segs" by (rule built_build [OF assms])
  then have d: "distinct (map fst ?segs)" by (simp add: built_def)
  have keys: "set (map fst ?segs) = {track_id tr |fd tr. fd \<in> set results \<and> tr \<in> set (tracks fd)}"
  proof -
    have "set (map fst ?segs) = (\<lambda>(n, tr). track_id tr) ` ?S" using b by (simp add: built_def)
    also have "\<dots> = {track_id tr |fd tr. fd \<in> set results \<and> tr \<in> set (tracks fd)}"
    proof (rule set_eqI)
      fix t
      show "t \<in> (\<lambda>(n, tr). track_id tr) ` ?S
          \<longleftrightarrow> t \<in> {track_id tr |fd tr. fd \<in> set results \<and> tr \<in> set (tracks fd)}"
      proof
        assume "t \<in> (\<lambda>(n, tr). track_id tr) ` ?S"
        then obtain n tr where "(n, tr) \<in> ?S" "t = track_id tr" by auto
        then show "t \<in> {track_id tr |fd tr. fd \<in> set results \<and> tr \<in> set (tracks fd)}"
          by (auto simp: in_observations)
      next
        assume "t \<in> {track_id tr |fd tr. fd \<in> set results \<and> tr \<in> set (tracks fd)}"
        then obtain fd tr where m: "fd \<in> set results" "tr \<in> set (tracks fd)" "t = track_id tr"
          by blast
        then have "(frame fd, tr) \<in> ?S" by (auto simp: in_observations)
        with m(3) show "t \<in> (\<lambda>(n, tr). track_id tr) ` ?S" by force
      qed
    qed
    finally show ?thesis .
  qed
  have each: "(\<exists>s. start_frame seg = Some s \<and> s \<le> end_frame seg)
        \<and> (\<exists>fd \<in> set results. \<exists>tr \<in> set (tracks fd). track_id tr = tid
              \<and> start_frame seg = Some (frame fd) \<and> start_position seg = Some (center tr)
              \<and> start_bbox seg = Some (bbox tr))
        \<and> (\<exists>fd \<in> set results. \<exists>tr \<in> set (tracks fd). track_id tr = tid
              \<and> end_frame seg = frame fd \<and> end_position seg = Some (center tr)
              \<and> end_bbox seg = Some (bbox tr))
        \<and> (\<forall>f. (\<forall>fd \<in> set results. \<forall>tr \<in> set (tracks fd). track_id tr = tid \<longrightarrow> frame fd = f)
              \<longrightarrow> start_frame seg = Some f \<and> end_frame seg = f
                  \<and> start_position seg = end_position seg \<and> start_bbox seg = end_bbox seg)"
    if mem: "(tid, seg) \<in> set ?segs" for tid seg
  proof -
    from mem d have "map_of ?segs tid = Some seg" by simp
    with b have sp: "span_ok seg" and dr: "drawn (of_id tid ?S) seg" by (simp_all add: built_def)
    from sp have c1: "\<exists>s. start_frame seg = Some s \<and> s \<le> end_frame seg"
      by (simp add: span_ok_def split: option.splits)
    from dr obtain n tr where st: "(n, tr) \<in> of_id tid ?S" "start_frame seg = Some n"
        "start_position seg = Some (center tr)" "start_bbox seg = Some (bbox tr)"
      unfolding drawn_def by blast
    from dr obtain m tr' where en: "(m, tr') \<in> of_id tid ?S" "end_frame seg = m"
        "end_position seg = Some (center tr')" "end_bbox seg = Some (bbox tr')"
      unfolding drawn_def by blast
    from dr have eq: "start_frame seg = Some (end_frame seg)
          \<longrightarrow> start_position seg = end_position seg \<and> start_bbox seg = end_bbox seg"
      unfolding drawn_def by blast
    from st(1) obtain fd where fd: "fd \<in> set results" "n = frame fd" "tr \<in> set (tracks fd)"
        "track_id tr = tid"
      by (auto simp: of_id_def in_observations)
    from en(1) obtain fd' where fd': "fd' \<in> set results" "m = frame fd'" "tr' \<in> set (tracks fd')"
        "track_id tr' = tid"
      by (auto simp: of_id_def in_observations)
    have c2: "\<exists>fd \<in> set results. \<exists>tr \<in> set (tracks fd). track_id tr = tid
              \<and> start_frame seg = Some (frame fd) \<and> start_position seg = Some (center tr)
              \<and> start_bbox seg = Some (bbox tr)"
      using fd st by blast
    have c3: "\<exists>fd \<in> set results. \<exists>tr \<in> set (tracks fd). track_id tr = tid
              \<and> end_frame seg = frame fd \<and> end_position seg = Some (center tr)
              \<and> end_bbox seg = Some (bbox tr)"
      using fd' en by blast
    have c4: "start_frame seg = Some f \<and> end_frame seg = f
                  \<and> start_position seg = end_position seg \<and> start_bbox seg = end_bbox seg"
      if one: "\<forall>fd \<in> set results. \<forall>tr \<in> set (tracks fd). track_id tr = tid \<longrightarrow> frame fd = f" for f
    proof -
      from one fd have "n = f" by blast
      moreover from one fd' have "m = f" by blast
      ultimately show ?thesis using st(2) en(2) eq by simp
    qed
    from c1 c2 c3 c4 show ?thesis by blast
  qed
  from d keys each show ?thesis by blast
qed

theorem build_track_segments_invariant_witness:
  "list_all (\<lambda>fd. 1 \<le> frame fd) two_frames
   \<and> distinct (map fst (build_track_segments two_frames))
   \<and> set (map fst (build_track_segments two_frames)) = {7, 8}
   \<and> list_all (\<lambda>(tid, seg). span_ok seg) (build_track_segments two_frames)"
proof -
  have h: "\<forall>fd \<in> set two_frames. 1 \<le> frame fd" by (simp add: two_frames_def)
  have k: "set (map fst (build_track_segments two_frames)) = {7, 8}"
    by (auto simp: two_frames_def build_track_segments_def observe_frame_def observe_def
        extend_segment_def default_segment_def lt_start_def Let_def)
  from build_track_segments_invariant [OF h] have
    "distinct (map fst (build_track_segments two_frames))"
    "\<forall>(tid, seg) \<in> set (build_track_segments two_frames).
         \<exists>s. start_frame seg = Some s \<and> s \<le> end_frame seg"
    by (blast+)
  then have "distinct (map fst (build_track_segments two_frames))"
    "list_all (\<lambda>(tid, seg). span_ok seg) (build_track_segments two_frames)"
    by (auto simp: list_all_iff span_ok_def)
  with h k show ?thesis by (simp add: list_all_iff)
qed

section \<open>The rule of the merge candidate resolver\<close>

lemma sqrt_less_iff: "0 < t \<Longrightarrow> (sqrt x < t) = (x < t\<^sup>2)"
proof -
  assume t: "0 < t"
  have "sqrt x < sqrt (t\<^sup>2) \<longleftrightarrow> x < t\<^sup>2" by (rule real_sqrt_less_iff)
  with t show ?thesis by simp
qed

lemma get_bbox_size_area: "get_bbox_size ar b = box_area ar b"
  by (simp add: get_bbox_size_def box_area_def)

lemma norm_diff_euclid: "norm_diff ar p q = euclid ar p q"
  by (simp add: norm_diff_def euclid_def)

lemma proximity_observed:
  "proximity ar cfg (Some p) (Some q) (Some b1) (Some b2) =
     (if f_is_zero ar (py_max ar (box_area ar b1) (box_area ar b2)) then Inl ZeroDivisionError
      else Inr (f_lt ar (euclid ar p q) (position_threshold cfg)
                \<and> similar_size ar cfg (box_area ar b1) (box_area ar b2)))"
  by (simp add: proximity_def size_ratio_def similar_size_def get_bbox_size_area norm_diff_euclid)

lemma decision_earlier_first:
  assumes "observed e" "observed l" "precedes e l"
  shows "(merge_decision ar cfg a e b l = Inr (Some (a, b))) = spec_mergeable ar cfg e l False"
  using assms
  by (auto simp: merge_decision_def observed_def precedes_def spec_mergeable_def lt_start_def
      gap_within_def proximity_observed similar_size_def Let_def split: if_splits)

lemma decision_later_first:
  assumes "observed e" "observed l" "precedes e l" "\<not> precedes l e"
  shows "(merge_decision ar cfg b l a e = Inr (Some (a, b))) = spec_mergeable ar cfg e l True"
  using assms
  by (auto simp: merge_decision_def observed_def precedes_def spec_mergeable_def lt_start_def
      gap_within_def proximity_observed similar_size_def Let_def split: if_splits)

lemma decision_unordered:
  assumes "observed e" "observed l" "\<not> precedes e l" "\<not> precedes l e"
  shows "merge_decision ar cfg a e b l = Inr None"
  using assms
  by (auto simp: merge_decision_def observed_def precedes_def lt_start_def)

lemma precedes_asym:
  assumes "observed e" "span_ok e" "span_ok l" "precedes e l"
  shows "\<not> precedes l e"
  using assms by (auto simp: observed_def span_ok_def precedes_def split: option.splits)

lemma precedes_irrefl:
  assumes "observed e" "span_ok e"
  shows "\<not> precedes e e"
  using assms by (auto simp: observed_def span_ok_def precedes_def split: option.splits)

lemma decision_shape:
  assumes "merge_decision ar cfg a sa b sb = Inr (Some (ma, sl))"
  shows "(lt_start (end_frame sa) (start_frame sb) \<and> ma = a \<and> sl = b)
       \<or> (\<not> lt_start (end_frame sa) (start_frame sb)
           \<and> lt_start (end_frame sb) (start_frame sa) \<and> ma = b \<and> sl = a)"
  using assms unfolding merge_decision_def
  by (auto split: if_splits sum.splits)

lemma lt_start_precedes: "observed l \<Longrightarrow> lt_start (end_frame e) (start_frame l) = precedes e l"
  by (auto simp: observed_def lt_start_def precedes_def)

lemma decision_cases:
  assumes "merge_decision ar cfg a sa b sb = Inr (Some (ma, sl))"
    and "observed sa" "observed sb" "span_ok sa" "span_ok sb"
  shows "(ma = a \<and> sl = b \<and> precedes sa sb \<and> spec_mergeable ar cfg sa sb False)
       \<or> (ma = b \<and> sl = a \<and> precedes sb sa \<and> spec_mergeable ar cfg sb sa True)"
proof -
  from decision_shape [OF assms(1)] assms(2,3)
  consider (first) "precedes sa sb" "ma = a" "sl = b"
    | (second) "\<not> precedes sa sb" "precedes sb sa" "ma = b" "sl = a"
    by (auto simp: lt_start_precedes)
  then show ?thesis
  proof cases
    case first
    with assms(1) decision_earlier_first [OF assms(2) assms(3) first(1), of ar cfg a b]
    show ?thesis by simp
  next
    case second
    with assms(1) decision_later_first [OF assms(3) assms(2) second(2) second(1), of ar cfg a b]
    show ?thesis by simp
  qed
qed

section \<open>The merge mapping has no cycle\<close>

lemma before_trans:
  assumes "spans_ok segs" "before segs a b" "before segs b c"
  shows "before segs a c"
proof -
  from assms(2) obtain sa sb k where 1: "map_of segs a = Some sa" "map_of segs b = Some sb"
      "start_frame sb = Some k" "end_frame sa < k"
    unfolding before_def by blast
  from assms(3) 1(2) obtain sc j where 2: "map_of segs c = Some sc"
      "start_frame sc = Some j" "end_frame sb < j"
    unfolding before_def by auto
  from assms(1) 1(2) have "span_ok sb" by (simp add: spans_ok_def)
  with 1(3) have "k \<le> end_frame sb" by (simp add: span_ok_def)
  with 1(4) 2(3) have "end_frame sa < j" by simp
  with 1(1) 2(1) 2(2) show ?thesis unfolding before_def by blast
qed

lemma before_irrefl:
  assumes "spans_ok segs"
  shows "\<not> before segs a a"
proof
  assume "before segs a a"
  then obtain sa k where 1: "map_of segs a = Some sa" "start_frame sa = Some k" "end_frame sa < k"
    unfolding before_def by auto
  from assms 1(1) have "span_ok sa" by (simp add: spans_ok_def)
  with 1(2) 1(3) show False by (simp add: span_ok_def)
qed

lemma decision_before:
  assumes "merge_decision ar cfg a sa b sb = Inr (Some (ma, sl))"
    and "map_of segs a = Some sa" "map_of segs b = Some sb"
  shows "before segs ma sl"
  using assms
  by (auto simp: merge_decision_def before_def lt_start_def gap_within_def
      split: if_splits option.splits sum.splits)

lemma edges_trancl_before:
  assumes "backward segs m" "spans_ok segs" "(s, v) \<in> (edges m)\<^sup>+"
  shows "before segs v s"
  using assms(3)
proof (induction rule: trancl_induct)
  case (base y)
  with assms(1) show ?case by (simp add: edges_def backward_def)
next
  case (step y z)
  from step(2) assms(1) have "before segs z y" by (simp add: edges_def backward_def)
  from before_trans [OF assms(2) this step(3)] show ?case .
qed

lemma backward_acyclic:
  assumes "backward segs m" "spans_ok segs"
  shows "acyclic (edges m)"
  unfolding acyclic_def
  using edges_trancl_before [OF assms] before_irrefl [OF assms(2)] by blast

lemma finite_edges: "finite (edges m)"
proof -
  have "edges m \<subseteq> set m" by (auto simp: edges_def dest: map_of_SomeD)
  then show ?thesis by (rule finite_subset) simp
qed

lemma master_total:
  assumes "backward segs m" "spans_ok segs"
  shows "\<exists>r. get_master_id t m = Some r \<and> (r = t \<or> before segs r t) \<and> map_of m r = None"
proof -
  have "acyclic (edges m)" by (rule backward_acyclic [OF assms])
  with finite_edges have "wf ((edges m)\<inverse>)" by (rule finite_acyclic_wf_converse)
  then show ?thesis
  proof (induction t rule: wf_induct_rule)
    case (less t)
    show ?case
    proof (cases "map_of m t")
      case None
      then have "get_master_id t m = Some t" by (subst get_master_id.simps) simp
      with None show ?thesis by simp
    next
      case (Some v)
      then have "(v, t) \<in> (edges m)\<inverse>" by (simp add: edges_def)
      from less [OF this] obtain r where r: "get_master_id v m = Some r"
          "r = v \<or> before segs r v" "map_of m r = None"
        by blast
      from Some assms(1) have "before segs v t" by (simp add: backward_def)
      with r(2) assms(2) have "before segs r t" by (auto intro: before_trans)
      moreover from Some r(1) have "get_master_id t m = Some r"
        by (subst get_master_id.simps) simp
      ultimately show ?thesis using r(3) by simp
    qed
  qed
qed

lemma master_partial:
  assumes "get_master_id t m = Some r" "backward segs m" "spans_ok segs"
  shows "(r = t \<or> before segs r t) \<and> map_of m r = None"
  using master_total [OF assms(2,3), of t] assms(1) by auto

lemma backward_update:
  assumes "backward segs m" "before segs v s"
  shows "backward segs (AList.update s v m)"
  using assms by (simp add: backward_def AList.update_conv')

lemma merge_pair_backward:
  assumes "backward segs m" "spans_ok segs" "map_of segs a = Some sa"
  shows "merge_pair ar cfg segs a sa b m \<noteq> Diverge
       \<and> (\<forall>m'. merge_pair ar cfg segs a sa b m = Return m' \<longrightarrow> backward segs m')"
proof (cases "map_of segs b")
  case None
  then show ?thesis by (simp add: merge_pair_def)
next
  case (Some sb)
  show ?thesis
  proof (cases "merge_decision ar cfg a sa b sb")
    case (Inl e)
    with Some show ?thesis by (simp add: merge_pair_def)
  next
    case (Inr d)
    show ?thesis
    proof (cases d)
      case None
      with Some Inr assms(1) show ?thesis by (simp add: merge_pair_def)
    next
      case (Some p)
      obtain ma sl where p: "p = (ma, sl)" by (cases p)
      from Inr Some p have dec: "merge_decision ar cfg a sa b sb = Inr (Some (ma, sl))" by simp
      from decision_before [OF dec assms(3) \<open>map_of segs b = Some sb\<close>]
      have bf: "before segs ma sl" .
      from master_total [OF assms(1) assms(2)]
      obtain r where r: "get_master_id ma m = Some r" by blast
      from master_partial [OF r assms(1) assms(2)] have "r = ma \<or> before segs r ma" by simp
      with bf assms(2) have "before segs r sl" by (auto intro: before_trans)
      from backward_update [OF assms(1) this]
      show ?thesis using dec r \<open>map_of segs b = Some sb\<close> by (simp add: merge_pair_def)
    qed
  qed
qed

lemma merge_inner_backward:
  assumes "backward segs m" "spans_ok segs" "map_of segs a = Some sa"
  shows "merge_inner ar cfg segs a sa bs m \<noteq> Diverge
       \<and> (\<forall>m'. merge_inner ar cfg segs a sa bs m = Return m' \<longrightarrow> backward segs m')"
  using assms(1)
proof (induction bs arbitrary: m)
  case Nil
  then show ?case by simp
next
  case (Cons b bs)
  from merge_pair_backward [OF Cons.prems assms(2) assms(3), of ar cfg b]
  have p: "merge_pair ar cfg segs a sa b m \<noteq> Diverge"
    "\<And>m'. merge_pair ar cfg segs a sa b m = Return m' \<Longrightarrow> backward segs m'"
    by simp_all
  show ?case
  proof (cases "merge_pair ar cfg segs a sa b m")
    case (Return m1)
    from Cons.IH [OF p(2) [OF Return]] Return show ?thesis by simp
  next
    case (Raise e)
    then show ?thesis by simp
  next
    case Diverge
    with p(1) show ?thesis by simp
  qed
qed

lemma merge_outer_backward:
  assumes "backward segs m" "spans_ok segs"
  shows "merge_outer ar cfg segs ids m \<noteq> Diverge
       \<and> (\<forall>m'. merge_outer ar cfg segs ids m = Return m' \<longrightarrow> backward segs m')"
  using assms(1)
proof (induction ids arbitrary: m)
  case Nil
  then show ?case by simp
next
  case (Cons a rest)
  show ?case
  proof (cases "map_of segs a")
    case None
    then show ?thesis by simp
  next
    case (Some sa)
    from merge_inner_backward [OF Cons.prems assms(2) Some, of ar cfg rest]
    have p: "merge_inner ar cfg segs a sa rest m \<noteq> Diverge"
      "\<And>m'. merge_inner ar cfg segs a sa rest m = Return m' \<Longrightarrow> backward segs m'"
      by simp_all
    show ?thesis
    proof (cases "merge_inner ar cfg segs a sa rest m")
      case (Return m1)
      from Cons.IH [OF p(2) [OF Return]] Return Some show ?thesis by simp
    next
      case (Raise e)
      with Some show ?thesis by simp
    next
      case Diverge
      with p(1) show ?thesis by simp
    qed
  qed
qed

lemma backward_resolve:
  assumes "backward segs m" "spans_ok segs"
  shows "acyclic (edges m) \<and> (\<forall>k. map_of m k \<noteq> Some k)
       \<and> (\<forall>k. \<exists>r. get_master_id k m = Some r \<and> map_of m r = None \<and> get_master_id r m = Some r)"
proof -
  have ac: "acyclic (edges m)" by (rule backward_acyclic [OF assms])
  have noself: "map_of m k \<noteq> Some k" for k
  proof
    assume "map_of m k = Some k"
    with assms(1) have "before segs k k" by (simp add: backward_def)
    with before_irrefl [OF assms(2)] show False by blast
  qed
  have res: "\<exists>r. get_master_id k m = Some r \<and> map_of m r = None \<and> get_master_id r m = Some r" for k
  proof -
    from master_total [OF assms] obtain r where r: "get_master_id k m = Some r" by blast
    from master_partial [OF r assms] have "map_of m r = None" by simp
    moreover from this have "get_master_id r m = Some r" by (subst get_master_id.simps) simp
    ultimately show ?thesis using r by blast
  qed
  from ac noself res show ?thesis by blast
qed

lemma spans_ok_build: "spans_ok (build_track_segments results)"
  unfolding spans_ok_def using span_ok_build by blast

lemma resolver_backward:
  assumes "spans_ok segs"
  shows "find_merge_candidates ar cfg segs \<noteq> Diverge
       \<and> (\<forall>m. find_merge_candidates ar cfg segs = Return m \<longrightarrow> backward segs m)"
proof -
  have "backward segs []" by (simp add: backward_def)
  from merge_outer_backward [OF this assms] show ?thesis
    by (simp add: find_merge_candidates_def)
qed

text \<open>
  Claim C3. For every sequence of Frame Records, the resolver comes back on the segments
  that the builder makes of it, and when it returns a mapping, the mapping has no cycle,
  maps no identifier to itself, and \<^verbatim>\<open>_get_master_id\<close> ends for every identifier with a
  master that is not a key of the mapping and that resolves to itself. The segment
  invariant, a start frame that is not after the end frame, holds for every segment that
  the builder returns.
\<close>

theorem merge_map_acyclic:
  "find_merge_candidates ar cfg (build_track_segments results) \<noteq> Diverge
   \<and> (\<forall>m. find_merge_candidates ar cfg (build_track_segments results) = Return m \<longrightarrow>
          acyclic (edges m)
        \<and> (\<forall>k. map_of m k \<noteq> Some k)
        \<and> (\<forall>k. \<exists>r. get_master_id k m = Some r \<and> map_of m r = None
                    \<and> get_master_id r m = Some r))"
proof -
  let ?segs = "build_track_segments results"
  have sp: "spans_ok ?segs" by (rule spans_ok_build)
  from resolver_backward [OF sp, of ar cfg]
  have nd: "find_merge_candidates ar cfg ?segs \<noteq> Diverge"
    and bw: "\<And>m. find_merge_candidates ar cfg ?segs = Return m \<Longrightarrow> backward ?segs m"
    by simp_all
  show ?thesis
    using nd backward_resolve [OF bw sp] by blast
qed

section \<open>What the resolver records\<close>

lemma pairs_members: "(a, b) \<in> set (pairs xs) \<Longrightarrow> a \<in> set xs \<and> b \<in> set xs"
  by (induction xs) auto

lemma pairs_sorted: "sorted xs \<Longrightarrow> distinct xs \<Longrightarrow> (a, b) \<in> set (pairs xs) \<Longrightarrow> a < b"
proof (induction xs)
  case Nil
  then show ?case by simp
next
  case (Cons x rest)
  from Cons.prems(3) consider "a = x" "b \<in> set rest" | "(a, b) \<in> set (pairs rest)" by auto
  then show ?case
  proof cases
    case 1
    with Cons.prems(1,2) show ?thesis by (auto simp: order_less_le)
  next
    case 2
    with Cons show ?thesis by simp
  qed
qed

lemma pairs_complete:
  "sorted xs \<Longrightarrow> a \<in> set xs \<Longrightarrow> b \<in> set xs \<Longrightarrow> a < b \<Longrightarrow> (a, b) \<in> set (pairs xs)"
proof (induction xs)
  case Nil
  then show ?case by simp
next
  case (Cons x rest)
  show ?case
  proof (cases "a = x")
    case True
    with Cons.prems(3,4) have "b \<in> set rest" by auto
    with True show ?thesis by simp
  next
    case False
    with Cons.prems(2) have a: "a \<in> set rest" by simp
    with Cons.prems(1) have "x \<le> a" by simp
    with Cons.prems(4) have "b \<noteq> x" by simp
    with Cons.prems(3) have "b \<in> set rest" by simp
    with Cons a show ?thesis by simp
  qed
qed

lemma decided_union:
  "decided ar cfg segs (P \<union> Q) = decided ar cfg segs P \<union> decided ar cfg segs Q"
  unfolding decided_def by blast

lemma decided_none:
  assumes "map_of segs a = Some sa" "map_of segs b = Some sb"
    and "merge_decision ar cfg a sa b sb = Inr None"
  shows "decided ar cfg segs {(a, b)} = {}"
  using assms by (auto simp: decided_def)

lemma decided_some:
  assumes "map_of segs a = Some sa" "map_of segs b = Some sb"
    and "merge_decision ar cfg a sa b sb = Inr (Some (ma, sl))"
  shows "decided ar cfg segs {(a, b)} = {(ma, sl)}"
  using assms by (auto simp: decided_def)

lemma merge_pair_records:
  assumes "map_of segs b = Some sb"
  shows "(merge_decision ar cfg a sa b sb = Inr (Some (ma, sl)) \<and> get_master_id ma m = Some r
            \<longrightarrow> merge_pair ar cfg segs a sa b m = Return (AList.update sl r m))
       \<and> (merge_decision ar cfg a sa b sb = Inr None
            \<longrightarrow> merge_pair ar cfg segs a sa b m = Return m)"
  using assms by (simp add: merge_pair_def)

lemma merge_pair_cases:
  assumes "merge_pair ar cfg segs a sa b m = Return m'"
  shows "\<exists>sb. map_of segs b = Some sb
          \<and> ((merge_decision ar cfg a sa b sb = Inr None \<and> m' = m)
             \<or> (\<exists>ma sl r. merge_decision ar cfg a sa b sb = Inr (Some (ma, sl))
                    \<and> get_master_id ma m = Some r \<and> m' = AList.update sl r m))"
  using assms unfolding merge_pair_def
  by (auto split: option.splits sum.splits prod.splits)

lemma recorded_pair:
  assumes rd: "recorded segs D m" and bw: "backward segs m" and sp: "spans_ok segs"
    and a: "map_of segs a = Some sa"
    and ret: "merge_pair ar cfg segs a sa b m = Return m'"
  shows "recorded segs (D \<union> decided ar cfg segs {(a, b)}) m'"
proof -
  from merge_pair_cases [OF ret] obtain sb where sb: "map_of segs b = Some sb"
    and alt: "(merge_decision ar cfg a sa b sb = Inr None \<and> m' = m)
       \<or> (\<exists>ma sl r. merge_decision ar cfg a sa b sb = Inr (Some (ma, sl))
              \<and> get_master_id ma m = Some r \<and> m' = AList.update sl r m)"
    by blast
  from alt show ?thesis
  proof
    assume "merge_decision ar cfg a sa b sb = Inr None \<and> m' = m"
    with rd decided_none [OF a sb] show ?thesis by simp
  next
    assume "\<exists>ma sl r. merge_decision ar cfg a sa b sb = Inr (Some (ma, sl))
              \<and> get_master_id ma m = Some r \<and> m' = AList.update sl r m"
    then obtain ma sl r where dec: "merge_decision ar cfg a sa b sb = Inr (Some (ma, sl))"
      and r: "get_master_id ma m = Some r" and m': "m' = AList.update sl r m"
      by blast
    have D': "D \<union> decided ar cfg segs {(a, b)} = insert (ma, sl) D"
      using decided_some [OF a sb dec] by simp
    from master_partial [OF r bw sp] have chain: "r = ma \<or> before segs r ma" by simp
    have keys: "fst ` set m' = snd ` insert (ma, sl) D"
      using rd by (simp add: m' recorded_def AList.dom_update)
    have vals: "\<exists>ma'. (ma', s) \<in> insert (ma, sl) D \<and> (v = ma' \<or> before segs v ma')"
      if look: "map_of m' s = Some v" for s v
    proof (cases "s = sl")
      case True
      with look have "v = r" by (simp add: m' AList.update_conv')
      with chain True show ?thesis by blast
    next
      case False
      with look have "map_of m s = Some v" by (simp add: m' AList.update_conv')
      with rd obtain ma' where "(ma', s) \<in> D" "v = ma' \<or> before segs v ma'"
        unfolding recorded_def by blast
      then show ?thesis by blast
    qed
    from keys vals show ?thesis unfolding D' recorded_def by blast
  qed
qed

lemma recorded_inner:
  assumes "recorded segs D m" "backward segs m" "spans_ok segs" "map_of segs a = Some sa"
    and "merge_inner ar cfg segs a sa bs m = Return m'"
  shows "recorded segs (D \<union> decided ar cfg segs ({a} \<times> set bs)) m'"
  using assms(1,2,5)
proof (induction bs arbitrary: m D)
  case Nil
  then show ?case by (simp add: decided_def)
next
  case (Cons b bs)
  from Cons.prems(3) obtain m1 where m1: "merge_pair ar cfg segs a sa b m = Return m1"
    and rest: "merge_inner ar cfg segs a sa bs m1 = Return m'"
    by (auto split: result.splits)
  from recorded_pair [OF Cons.prems(1) Cons.prems(2) assms(3) assms(4) m1]
  have r1: "recorded segs (D \<union> decided ar cfg segs {(a, b)}) m1" .
  from merge_pair_backward [OF Cons.prems(2) assms(3) assms(4), of ar cfg b] m1
  have b1: "backward segs m1" by simp
  have split: "{a} \<times> set (b # bs) = {(a, b)} \<union> {a} \<times> set bs" by auto
  have eq: "decided ar cfg segs ({a} \<times> set (b # bs))
      = decided ar cfg segs {(a, b)} \<union> decided ar cfg segs ({a} \<times> set bs)"
    by (subst split) (rule decided_union)
  show ?case
    unfolding eq Un_assoc [symmetric] by (rule Cons.IH [OF r1 b1 rest])
qed

lemma recorded_outer:
  assumes "recorded segs D m" "backward segs m" "spans_ok segs"
    and "merge_outer ar cfg segs xs m = Return m'"
  shows "recorded segs (D \<union> decided ar cfg segs (set (pairs xs))) m'"
  using assms(1,2,4)
proof (induction xs arbitrary: m D)
  case Nil
  then show ?case by (simp add: decided_def)
next
  case (Cons a rest)
  from Cons.prems(3) obtain sa m1 where sa: "map_of segs a = Some sa"
    and m1: "merge_inner ar cfg segs a sa rest m = Return m1"
    and tl: "merge_outer ar cfg segs rest m1 = Return m'"
    by (auto split: option.splits result.splits)
  from recorded_inner [OF Cons.prems(1) Cons.prems(2) assms(3) sa m1]
  have r1: "recorded segs (D \<union> decided ar cfg segs ({a} \<times> set rest)) m1" .
  from merge_inner_backward [OF Cons.prems(2) assms(3) sa, of ar cfg rest] m1
  have b1: "backward segs m1" by simp
  have split: "set (pairs (a # rest)) = {a} \<times> set rest \<union> set (pairs rest)" by auto
  have eq: "decided ar cfg segs (set (pairs (a # rest)))
      = decided ar cfg segs ({a} \<times> set rest) \<union> decided ar cfg segs (set (pairs rest))"
    by (subst split) (rule decided_union)
  show ?case
    unfolding eq Un_assoc [symmetric] by (rule Cons.IH [OF r1 b1 tl])
qed

lemma recorded_result:
  assumes "spans_ok segs" "find_merge_candidates ar cfg segs = Return m"
  shows "recorded segs (decided ar cfg segs (set (pairs (sort (map fst segs))))) m"
proof -
  have "recorded segs {} []" by (simp add: recorded_def)
  moreover have "backward segs []" by (simp add: backward_def)
  ultimately show ?thesis
    using recorded_outer [of segs "{}" "[]" ar cfg "sort (map fst segs)" m] assms
    by (simp add: find_merge_candidates_def)
qed

lemma decided_joins:
  assumes d: "distinct (map fst segs)" and sp: "spans_ok segs"
    and ob: "\<forall>t seg. map_of segs t = Some seg \<longrightarrow> observed seg"
  shows "((ma, sl) \<in> decided ar cfg segs (set (pairs (sort (map fst segs)))))
       = joins ar cfg segs ma sl"
proof
  let ?xs = "sort (map fst segs)"
  have so: "sorted ?xs" and di: "distinct ?xs" using d by simp_all
  assume "(ma, sl) \<in> decided ar cfg segs (set (pairs ?xs))"
  then obtain a b sa sb where p: "(a, b) \<in> set (pairs ?xs)"
    and sa: "map_of segs a = Some sa" and sb: "map_of segs b = Some sb"
    and dec: "merge_decision ar cfg a sa b sb = Inr (Some (ma, sl))"
    unfolding decided_def by blast
  from pairs_sorted [OF so di p] have ab: "a < b" .
  from ob sa sb have o: "observed sa" "observed sb" by blast+
  from sp sa sb have s: "span_ok sa" "span_ok sb" unfolding spans_ok_def by blast+
  from decision_cases [OF dec o s] ab sa sb show "joins ar cfg segs ma sl"
    unfolding joins_def by auto
next
  let ?xs = "sort (map fst segs)"
  have so: "sorted ?xs" by simp
  assume "joins ar cfg segs ma sl"
  then obtain sm ss where sm: "map_of segs ma = Some sm" and ss: "map_of segs sl = Some ss"
    and pr: "precedes sm ss" and mg: "spec_mergeable ar cfg sm ss (sl < ma)"
    unfolding joins_def by blast
  from ob sm ss have o: "observed sm" "observed ss" by blast+
  from sp sm ss have s: "span_ok sm" "span_ok ss" unfolding spans_ok_def by blast+
  from sm have "(ma, sm) \<in> set segs" by (rule map_of_SomeD)
  then have mem1: "ma \<in> set ?xs" by force
  from ss have "(sl, ss) \<in> set segs" by (rule map_of_SomeD)
  then have mem2: "sl \<in> set ?xs" by force
  note mem = mem1 mem2
  have ne: "ma \<noteq> sl"
  proof
    assume "ma = sl"
    with sm ss pr precedes_irrefl [OF o(1) s(1)] show False by simp
  qed
  show "(ma, sl) \<in> decided ar cfg segs (set (pairs ?xs))"
  proof (cases "ma < sl")
    case True
    from pairs_complete [OF so mem True] have p: "(ma, sl) \<in> set (pairs ?xs)" .
    from True mg have "spec_mergeable ar cfg sm ss False" by simp
    with decision_earlier_first [OF o pr, of ar cfg ma sl]
    have "merge_decision ar cfg ma sm sl ss = Inr (Some (ma, sl))" by simp
    with p sm ss show ?thesis unfolding decided_def by blast
  next
    case False
    with ne have lt: "sl < ma" by simp
    from pairs_complete [OF so mem(2) mem(1) lt] have p: "(sl, ma) \<in> set (pairs ?xs)" .
    from lt mg have "spec_mergeable ar cfg sm ss True" by simp
    with decision_later_first [OF o pr precedes_asym [OF o(1) s pr], of ar cfg sl ma]
    have "merge_decision ar cfg sl ss ma sm = Inr (Some (ma, sl))" by simp
    with p sm ss show ?thesis unfolding decided_def by blast
  qed
qed

lemma built_segments_complete:
  assumes "\<forall>fd \<in> set results. 1 \<le> frame fd"
  shows "distinct (map fst (build_track_segments results))
       \<and> spans_ok (build_track_segments results)
       \<and> (\<forall>t seg. map_of (build_track_segments results) t = Some seg \<longrightarrow> observed seg)"
proof -
  let ?segs = "build_track_segments results"
  from built_build [OF assms] have b: "built (set (observations results)) ?segs" .
  then have d: "distinct (map fst ?segs)" by (simp add: built_def)
  have "observed seg" if "map_of ?segs t = Some seg" for t seg
  proof -
    from b that have sp: "span_ok seg" and dr: "drawn (of_id t (set (observations results))) seg"
      by (simp_all add: built_def)
    from sp have 1: "start_frame seg \<noteq> None"
      by (auto simp: span_ok_def split: option.splits)
    from dr obtain n tr where 2: "(n, tr) \<in> of_id t (set (observations results))"
        "start_frame seg = Some n" "start_position seg = Some (center tr)"
        "start_bbox seg = Some (bbox tr)"
      unfolding drawn_def by blast
    from dr obtain k tr' where 3: "(k, tr') \<in> of_id t (set (observations results))"
        "end_frame seg = k" "end_position seg = Some (center tr')"
        "end_bbox seg = Some (bbox tr')"
      unfolding drawn_def by blast
    from 1 2 3 show ?thesis unfolding observed_def by simp
  qed
  with d spans_ok_build show ?thesis by blast
qed

text \<open>
  Claim C1, as the code has it. Let the segments have distinct identifiers, be complete and
  satisfy the segment invariant, as those that the builder makes of frame numbers of at
  least 1. (1) For a compared pair whose first segment ends strictly
  before the second starts, the resolver decides to merge, with the earlier track as
  master and the later one as slave, exactly when the frame gap is at most
  \<open>max_frame_gap\<close>, the distance from the earlier end position to the later start position
  is below \<open>position_threshold\<close>, and \<^verbatim>\<open>min(areaA, areaB) / max(areaA, areaB)\<close> is defined and
  above \<open>size_similarity_threshold\<close>; likewise when the second segment of the pair is the
  earlier one; and it decides nothing when neither segment ends before the other starts.
  (2) On a decision it maps the slave to the terminal master of the master, and without a
  decision it leaves the mapping as it is. (3) In the mapping that the resolver returns, a
  track is a key exactly when some track that ends before it starts meets the three
  conditions with it, and its value is such a track or a track that ended before such a
  track started. Distances, areas and ratios are the values that the arithmetic of the
  program gives.
\<close>

theorem resolver_rule:
  assumes "distinct (map fst segs)" and "spans_ok segs"
    and "\<forall>t seg. map_of segs t = Some seg \<longrightarrow> observed seg"
  shows "(\<forall>a b sa sb. map_of segs a = Some sa \<and> map_of segs b = Some sb \<longrightarrow>
            (precedes sa sb \<longrightarrow>
               (merge_decision ar cfg a sa b sb = Inr (Some (a, b)))
                 = spec_mergeable ar cfg sa sb False)
          \<and> (precedes sb sa \<longrightarrow>
               (merge_decision ar cfg a sa b sb = Inr (Some (b, a)))
                 = spec_mergeable ar cfg sb sa True)
          \<and> (\<not> precedes sa sb \<and> \<not> precedes sb sa \<longrightarrow>
               merge_decision ar cfg a sa b sb = Inr None))
       \<and> (\<forall>a b sa sb m ma sl r. map_of segs b = Some sb \<longrightarrow>
            (merge_decision ar cfg a sa b sb = Inr (Some (ma, sl)) \<and> get_master_id ma m = Some r
               \<longrightarrow> merge_pair ar cfg segs a sa b m = Return (AList.update sl r m))
          \<and> (merge_decision ar cfg a sa b sb = Inr None
               \<longrightarrow> merge_pair ar cfg segs a sa b m = Return m))
       \<and> (\<forall>m. find_merge_candidates ar cfg segs = Return m \<longrightarrow>
            (\<forall>s. (map_of m s \<noteq> None) = (\<exists>ma. joins ar cfg segs ma s))
          \<and> (\<forall>s v. map_of m s = Some v \<longrightarrow>
                 (\<exists>ma. joins ar cfg segs ma s \<and> (v = ma \<or> before segs v ma))))"
proof -
  have one: "(precedes sa sb \<longrightarrow>
               (merge_decision ar cfg a sa b sb = Inr (Some (a, b)))
                 = spec_mergeable ar cfg sa sb False)
          \<and> (precedes sb sa \<longrightarrow>
               (merge_decision ar cfg a sa b sb = Inr (Some (b, a)))
                 = spec_mergeable ar cfg sb sa True)
          \<and> (\<not> precedes sa sb \<and> \<not> precedes sb sa \<longrightarrow>
               merge_decision ar cfg a sa b sb = Inr None)"
    if look: "map_of segs a = Some sa \<and> map_of segs b = Some sb" for a b sa sb
  proof -
    from assms(3) look have o: "observed sa" "observed sb" by blast+
    from assms(2) look have s: "span_ok sa" "span_ok sb" unfolding spans_ok_def by blast+
    have 1: "(merge_decision ar cfg a sa b sb = Inr (Some (a, b)))
               = spec_mergeable ar cfg sa sb False" if "precedes sa sb"
      using decision_earlier_first [OF o that] .
    have 2: "(merge_decision ar cfg a sa b sb = Inr (Some (b, a)))
               = spec_mergeable ar cfg sb sa True" if p: "precedes sb sa"
      using decision_later_first [OF o(2) o(1) p precedes_asym [OF o(2) s(2) s(1) p]] .
    have 3: "merge_decision ar cfg a sa b sb = Inr None"
      if "\<not> precedes sa sb \<and> \<not> precedes sb sa"
      using decision_unordered [OF o] that by blast
    from 1 2 3 show ?thesis by blast
  qed
  have two: "(merge_decision ar cfg a sa b sb = Inr (Some (ma, sl)) \<and> get_master_id ma m = Some r
               \<longrightarrow> merge_pair ar cfg segs a sa b m = Return (AList.update sl r m))
          \<and> (merge_decision ar cfg a sa b sb = Inr None
               \<longrightarrow> merge_pair ar cfg segs a sa b m = Return m)"
    if "map_of segs b = Some sb" for a b sa sb m ma sl r
    using merge_pair_records [OF that] .
  have three: "(\<forall>s. (map_of m s \<noteq> None) = (\<exists>ma. joins ar cfg segs ma s))
          \<and> (\<forall>s v. map_of m s = Some v \<longrightarrow>
                 (\<exists>ma. joins ar cfg segs ma s \<and> (v = ma \<or> before segs v ma)))"
    if ret: "find_merge_candidates ar cfg segs = Return m" for m
  proof -
    let ?D = "decided ar cfg segs (set (pairs (sort (map fst segs))))"
    from recorded_result [OF assms(2) ret] have keys: "fst ` set m = snd ` ?D"
      and vals: "\<And>s v. map_of m s = Some v \<Longrightarrow>
                   \<exists>ma. (ma, s) \<in> ?D \<and> (v = ma \<or> before segs v ma)"
      unfolding recorded_def by blast+
    note dj = decided_joins [OF assms, of _ _ ar cfg]
    have k: "(map_of m s \<noteq> None) = (\<exists>ma. joins ar cfg segs ma s)" for s
    proof -
      have "(map_of m s \<noteq> None) = (s \<in> fst ` set m)" by (simp add: map_of_eq_None_iff)
      also have "\<dots> = (s \<in> snd ` ?D)" by (simp add: keys)
      also have "\<dots> = (\<exists>ma. (ma, s) \<in> ?D)" by force
      also have "\<dots> = (\<exists>ma. joins ar cfg segs ma s)" by (simp add: dj)
      finally show ?thesis .
    qed
    have v: "\<exists>ma. joins ar cfg segs ma s \<and> (v = ma \<or> before segs v ma)"
      if "map_of m s = Some v" for s v
      using vals [OF that] by (auto simp: dj)
    from k v show ?thesis by blast
  qed
  from one two three show ?thesis by blast
qed

section \<open>The resolver and the remapper on concrete sequences\<close>

lemmas build_defs = build_track_segments_def observe_frame_def observe_def extend_segment_def
  default_segment_def lt_start_def Let_def

lemmas resolve_defs = find_merge_candidates_def merge_pair_def merge_decision_def gap_within_def
  proximity_def size_ratio_def get_bbox_size_def norm_diff_def py_min_def py_max_def exact_def
  sqrt_less_iff get_master_id.simps

lemmas spec_defs = spec_mergeable_def similar_size_def box_area_def euclid_def py_min_def
  py_max_def exact_def sqrt_less_iff precedes_def seg_of_def default_stitcher_def Let_def

lemma pair_frames_segments:
  "build_track_segments pair_frames = [(1, seg_of 10 100), (2, seg_of 15 110)]"
  by (simp add: pair_frames_def still_def seg_of_def build_defs)

lemma rising_frames_segments:
  "build_track_segments rising_frames = [(1, seg_of 1 0), (2, seg_of 5 100), (3, seg_of 9 200)]"
  by (simp add: rising_frames_def still_def seg_of_def build_defs)

lemma forked_frames_segments:
  "build_track_segments forked_frames = [(1, seg_of 1 0), (2, seg_of 1 100), (3, seg_of 5 50)]"
  by (simp add: forked_frames_def still_def seg_of_def build_defs)

lemma twin_frames_segments:
  "build_track_segments twin_frames = [(1, seg_of 1 0), (2, seg_of 5 50), (3, seg_of 5 60)]"
  by (simp add: twin_frames_def still_def seg_of_def build_defs)

lemma pair_frames_result:
  "find_merge_candidates exact default_stitcher (build_track_segments pair_frames)
     = Return [(2, 1)]"
  unfolding pair_frames_segments
  by (simp add: seg_of_def default_stitcher_def lt_start_def resolve_defs)

lemma rising_frames_result:
  "find_merge_candidates exact default_stitcher (build_track_segments rising_frames)
     = Return [(2, 1), (3, 1)]"
  unfolding rising_frames_segments
  by (simp add: seg_of_def default_stitcher_def lt_start_def resolve_defs)

lemma forked_frames_result:
  "find_merge_candidates exact default_stitcher (build_track_segments forked_frames)
     = Return [(3, 2)]"
  unfolding forked_frames_segments
  by (simp add: seg_of_def default_stitcher_def lt_start_def resolve_defs)

lemma twin_frames_result:
  "find_merge_candidates exact default_stitcher (build_track_segments twin_frames)
     = Return [(2, 1), (3, 1)]"
  unfolding twin_frames_segments
  by (simp add: seg_of_def default_stitcher_def lt_start_def resolve_defs)

theorem resolver_rule_counterexample:
  "find_merge_candidates exact default_stitcher (build_track_segments rising_frames)
     = Return [(2, 1), (3, 1)]
   \<and> map_of [(2, 1), (3, 1 :: int)] (3 :: int) = Some 1
   \<and> map_of (build_track_segments rising_frames) 1 = Some (seg_of 1 0)
   \<and> map_of (build_track_segments rising_frames) 3 = Some (seg_of 9 200)
   \<and> precedes (seg_of 1 0) (seg_of 9 200)
   \<and> \<not> spec_mergeable exact default_stitcher (seg_of 1 0) (seg_of 9 200) False
   \<and> find_merge_candidates exact default_stitcher (build_track_segments forked_frames)
     = Return [(3, 2)]
   \<and> map_of [(3, 2 :: int)] (3 :: int) = Some 2
   \<and> map_of (build_track_segments forked_frames) 1 = Some (seg_of 1 0)
   \<and> map_of (build_track_segments forked_frames) 3 = Some (seg_of 5 50)
   \<and> precedes (seg_of 1 0) (seg_of 5 50)
   \<and> spec_mergeable exact default_stitcher (seg_of 1 0) (seg_of 5 50) False
   \<and> find_merge_candidates exact default_stitcher (build_track_segments twin_frames)
     = Return [(2, 1), (3, 1)]
   \<and> map_of (build_track_segments twin_frames) 2 = Some (seg_of 5 50)
   \<and> map_of (build_track_segments twin_frames) 3 = Some (seg_of 5 60)
   \<and> \<not> precedes (seg_of 5 50) (seg_of 5 60) \<and> \<not> precedes (seg_of 5 60) (seg_of 5 50)"
proof -
  have far: "\<not> spec_mergeable exact default_stitcher (seg_of 1 0) (seg_of 9 200) False"
    by (simp add: spec_defs)
  have near: "spec_mergeable exact default_stitcher (seg_of 1 0) (seg_of 5 50) False"
    by (simp add: spec_defs)
  have order: "precedes (seg_of 1 0) (seg_of 9 200)" "precedes (seg_of 1 0) (seg_of 5 50)"
    "\<not> precedes (seg_of 5 50) (seg_of 5 60)" "\<not> precedes (seg_of 5 60) (seg_of 5 50)"
    by (simp_all add: precedes_def seg_of_def)
  from far near order rising_frames_result forked_frames_result twin_frames_result
  show ?thesis
    by (simp add: rising_frames_segments forked_frames_segments twin_frames_segments)
qed

theorem resolver_rule_witness:
  "distinct (map fst (build_track_segments pair_frames))
   \<and> map_of (build_track_segments pair_frames) 1 = Some (seg_of 10 100)
   \<and> map_of (build_track_segments pair_frames) 2 = Some (seg_of 15 110)
   \<and> precedes (seg_of 10 100) (seg_of 15 110)
   \<and> spec_mergeable exact default_stitcher (seg_of 10 100) (seg_of 15 110) False
   \<and> merge_decision exact default_stitcher 1 (seg_of 10 100) 2 (seg_of 15 110)
     = Inr (Some (1, 2))
   \<and> merge_pair exact default_stitcher (build_track_segments pair_frames)
        1 (seg_of 10 100) 2 [] = Return [(2, 1)]
   \<and> find_merge_candidates exact default_stitcher (build_track_segments pair_frames)
     = Return [(2, 1)]
   \<and> (\<exists>ma. joins exact default_stitcher (build_track_segments pair_frames) ma 2)"
proof -
  let ?segs = "build_track_segments pair_frames"
  have d: "distinct (map fst ?segs)" by (simp add: pair_frames_segments)
  have sp: "spans_ok ?segs" by (rule spans_ok_build)
  have ob: "\<forall>t seg. map_of ?segs t = Some seg \<longrightarrow> observed seg"
    by (simp add: pair_frames_segments observed_def seg_of_def)
  have l1: "map_of ?segs 1 = Some (seg_of 10 100)" and l2: "map_of ?segs 2 = Some (seg_of 15 110)"
    by (simp_all add: pair_frames_segments)
  have pr: "precedes (seg_of 10 100) (seg_of 15 110)" by (simp add: precedes_def seg_of_def)
  have mg: "spec_mergeable exact default_stitcher (seg_of 10 100) (seg_of 15 110) False"
    by (simp add: spec_defs)
  have gm: "get_master_id 1 [] = Some 1" by (simp add: get_master_id.simps)
  note rule = resolver_rule [OF d sp ob, of exact default_stitcher]
  from rule l1 l2 pr mg
  have dec: "merge_decision exact default_stitcher 1 (seg_of 10 100) 2 (seg_of 15 110)
      = Inr (Some (1, 2))"
    by blast
  from rule l2 dec gm
  have "merge_pair exact default_stitcher ?segs 1 (seg_of 10 100) 2 []
      = Return (AList.update 2 1 [])"
    by blast
  then have step: "merge_pair exact default_stitcher ?segs 1 (seg_of 10 100) 2 [] = Return [(2, 1)]"
    by simp
  have "map_of [(2, 1 :: int)] (2 :: int) \<noteq> None" by simp
  with rule pair_frames_result
  have key: "\<exists>ma. joins exact default_stitcher ?segs ma 2" by blast
  from d l1 l2 pr mg dec step pair_frames_result key show ?thesis by blast
qed


lemma chain_frames_result:
  "find_merge_candidates exact default_stitcher (build_track_segments chain_frames)
     = Return [(1, 2), (2, 3)]"
  by (simp add: chain_frames_def still_def default_stitcher_def build_defs resolve_defs)

text \<open>
  Claim C2 says that no value of the merge mapping is ever a key of it. On the three
  fragments of \<open>chain_frames\<close> the resolver first maps 1 to 2 and then 2 to 3: the terminal
  master of the new master is looked up, but the entries that already point to the new
  slave stay as they are. The mapping returned holds the value 2, which is a key.
\<close>

theorem find_merge_candidates_chain:
  "find_merge_candidates exact default_stitcher (build_track_segments chain_frames)
     = Return [(1, 2), (2, 3)]
   \<and> map_of [(1, 2), (2, 3 :: int)] (1 :: int) = Some 2
   \<and> map_of [(1, 2), (2, 3 :: int)] (2 :: int) = Some 3"
  using chain_frames_result by simp

theorem merge_map_acyclic_witness:
  "find_merge_candidates exact default_stitcher (build_track_segments chain_frames)
     = Return [(1, 2), (2, 3)]
   \<and> acyclic (edges [(1, 2), (2, 3)])
   \<and> get_master_id 1 [(1, 2), (2, 3)] = Some 3
   \<and> get_master_id 3 [(1, 2), (2, 3)] = Some 3"
proof -
  from merge_map_acyclic [of exact default_stitcher chain_frames] chain_frames_result
  have "acyclic (edges [(1, 2), (2, 3)])" by simp
  moreover have "get_master_id 1 [(1, 2), (2, 3)] = Some 3"
    "get_master_id 3 [(1, 2), (2, 3)] = Some 3"
    by (simp_all add: get_master_id.simps)
  ultimately show ?thesis using chain_frames_result by simp
qed

text \<open>
  Claim C6 says that two boxes of area zero make the resolver reject the pair. On
  \<open>flat_frames\<close> the division of the size ratio raises, and the stitching pass ends with
  this error.
\<close>

theorem zero_area_raises:
  "find_merge_candidates exact default_stitcher (build_track_segments flat_frames)
     = Raise ZeroDivisionError
   \<and> stitch_tracks exact default_stitcher
        [\<lparr>rframe = 1, rtracks = [0]\<rparr>, \<lparr>rframe = 2, rtracks = [1]\<rparr>]
        (\<lambda>p. if p = 0 then flat 1 else flat 2)
     = Raise ZeroDivisionError"
  by (simp add: stitch_tracks_def load_def flat_frames_def flat_def default_stitcher_def
      build_defs resolve_defs)

text \<open>
  Claim C7 says that the statistics of an empty sequence are zero. Stitching the empty
  sequence gives the empty mapping and the empty result, but \<^verbatim>\<open>get_statistics\<close> then
  divides by the number of original identifiers, which is zero, and raises.
\<close>

theorem empty_sequence_statistics:
  "build_track_segments [] = []
   \<and> find_merge_candidates exact cfg [] = Return []
   \<and> stitch_tracks exact cfg [] st = Return ([], st)
   \<and> get_statistics [] [] = Inl ZeroDivisionError"
  by (simp add: build_track_segments_def find_merge_candidates_def stitch_tracks_def load_def
      apply_id_mapping_def get_statistics_def count_unique_ids_def)

text \<open>
  Claim C8 says that the Track Records of the caller keep their identifiers. The list
  returned by \<^verbatim>\<open>stitch_tracks\<close> holds the caller's own track dictionaries, which have been
  written to: read after the call, the caller's sequence shows identifier 1 where it held
  identifier 2, and the statistics that compare it with the result report no merged
  identifier.
\<close>

theorem stitch_tracks_overwrites_caller:
  "(case stitch_tracks exact default_stitcher caller_results caller_store of
      Return (stitched_results, st') \<Rightarrow>
        stitched_results = caller_results
        \<and> map (map track_id \<circ> tracks) (load caller_store caller_results) = [[1], [2]]
        \<and> map (map track_id \<circ> tracks) (load st' caller_results) = [[1], [1]]
        \<and> map (map track_id \<circ> tracks) (load st' stitched_results) = [[1], [1]]
        \<and> map_sum id ids_merged
              (get_statistics (load st' caller_results) (load st' stitched_results)) = Inr 0
    | Raise e \<Rightarrow> False
    | Diverge \<Rightarrow> False)"
  by (simp add: stitch_tracks_def load_def caller_results_def caller_store_def still_def
      default_stitcher_def build_defs resolve_defs apply_id_mapping_def remap_frame_def
      remap_track_def get_statistics_def count_unique_ids_def)

section \<open>Properties of the line crossing counter\<close>

lemmas counter_defs = process_all_def process_frame_def process_track_def deque_append_def
  cooling_down_def check_line_crossing_def segments_intersect_def ccw_def record_crossing_def
  get_crossing_direction_def vec_sub_def init_counter_def exact_def Let_def

lemma count_dir_snoc:
  "count_dir d (evs @ [e]) = count_dir d evs + (if ev_direction e = d then 1 else 0)"
  by (simp add: count_dir_def)

lemma count_dir_total: "count_dir IN evs + count_dir OUT evs = int (length evs)"
proof (induction evs)
  case Nil
  show ?case by (simp add: count_dir_def)
next
  case (Cons e evs)
  then show ?case by (cases "ev_direction e") (simp_all add: count_dir_def)
qed

lemma running_totals_snoc:
  assumes "running_totals evs"
    and "ev_count_in e = count_dir IN (evs @ [e])" "ev_count_out e = count_dir OUT (evs @ [e])"
  shows "running_totals (evs @ [e])"
  unfolding running_totals_def
proof (intro allI impI)
  fix n assume n: "n < length (evs @ [e])"
  show "ev_count_in ((evs @ [e]) ! n) = count_dir IN (take (Suc n) (evs @ [e]))
      \<and> ev_count_out ((evs @ [e]) ! n) = count_dir OUT (take (Suc n) (evs @ [e]))"
  proof (cases "n < length evs")
    case True
    with assms(1) show ?thesis by (simp add: running_totals_def nth_append)
  next
    case False
    with n have "n = length evs" by simp
    with assms(2,3) show ?thesis by simp
  qed
qed

lemma totals_ok_init: "totals_ok (init_counter ls le mf hl)"
  by (simp add: totals_ok_def init_counter_def running_totals_def count_dir_def)

lemma totals_ok_record:
  assumes "totals_ok c"
  shows "totals_ok (fst (record_crossing n tid pos d c))"
proof -
  let ?c1 = "if d = IN then c\<lparr>count_in := count_in c + 1\<rparr> else c\<lparr>count_out := count_out c + 1\<rparr>"
  let ?ev = "\<lparr>ev_frame = n, ev_track_id = tid, ev_direction = d, ev_position = pos,
              ev_count_in = count_in ?c1, ev_count_out = count_out ?c1\<rparr>"
  have ci: "count_in ?c1 = count_dir IN (events c @ [?ev])"
    using assms by (cases d) (simp_all add: totals_ok_def count_dir_snoc)
  have co: "count_out ?c1 = count_dir OUT (events c @ [?ev])"
    using assms by (cases d) (simp_all add: totals_ok_def count_dir_snoc)
  have rt: "running_totals (events c @ [?ev])"
    by (rule running_totals_snoc) (use assms ci co in \<open>simp_all add: totals_ok_def\<close>)
  have "fst (record_crossing n tid pos d c)
      = ?c1\<lparr>events := events c @ [?ev], last_crossing_frame := (last_crossing_frame c)(tid \<mapsto> n)\<rparr>"
    by (simp add: record_crossing_def Let_def)
  with ci co rt show ?thesis by (simp add: totals_ok_def)
qed

lemma totals_ok_history: "totals_ok (c\<lparr>track_history := h\<rparr>) = totals_ok c"
  by (simp add: totals_ok_def)

lemma totals_ok_track:
  assumes "totals_ok c"
  shows "totals_ok (fst (process_track ar n (c, fe) tr))"
proof -
  let ?c1 = "c\<lparr>track_history := (track_history c)(track_id tr :=
      deque_append (history_length c) (track_history c (track_id tr)) (n, center tr))\<rparr>"
  have c1: "totals_ok ?c1" using assms by (simp add: totals_ok_history)
  have rec: "totals_ok x1" if "record_crossing n (track_id tr) (center tr) d ?c1 = (x1, x2)" for d x1 x2
    using totals_ok_record [OF c1, of n "track_id tr" "center tr" d] that by simp
  show ?thesis
    using c1 rec
    by (auto simp: process_track_def Let_def split: option.splits prod.splits)
qed

lemma totals_ok_tracks:
  assumes "totals_ok (fst acc)"
  shows "totals_ok (fst (foldl (process_track ar n) acc trs))"
  using assms
proof (induction trs arbitrary: acc)
  case Nil
  then show ?case by simp
next
  case (Cons tr trs)
  obtain c fe where acc: "acc = (c, fe)" by (cases acc)
  with Cons.prems have "totals_ok (fst (process_track ar n acc tr))"
    by (simp add: totals_ok_track)
  from Cons.IH [OF this] show ?case by simp
qed

lemma totals_ok_frame: "totals_ok c \<Longrightarrow> totals_ok (fst (process_frame ar n trs c))"
  by (simp add: process_frame_def totals_ok_tracks)

lemma totals_ok_all: "totals_ok c \<Longrightarrow> totals_ok (process_all ar c results)"
  unfolding process_all_def
  by (induction results arbitrary: c) (simp_all add: totals_ok_frame)

lemma count_dir_take_mono:
  assumes "i \<le> j"
  shows "count_dir d (take i evs) \<le> count_dir d (take j evs)"
proof -
  have "take j evs = take i evs @ take (j - i) (drop i evs)"
    using assms by (metis le_add_diff_inverse take_add)
  then show ?thesis by (simp add: count_dir_def)
qed

lemma running_totals_sorted:
  assumes "running_totals evs"
  shows "sorted (map ev_count_in evs) \<and> sorted (map ev_count_out evs)"
  using assms
  by (auto simp: sorted_iff_nth_mono running_totals_def count_dir_take_mono)


text \<open>
  Claim C10. After any sequence of \<^verbatim>\<open>process_frame\<close> calls on a new counter,
  \<open>count_in + count_out\<close> is the length of the event log, so that in the summary
  \<open>total_in + total_out = total_crossings\<close>; each event of the log holds the number of IN
  events and the number of OUT events up to and including itself; the totals stored along
  the log never decrease; and the event that lines 88-107 build holds the two counters
  as these lines leave them, that is, right after the increment.
\<close>

theorem counter_totals:
  "count_in (process_all ar (init_counter ls le mf hl) results)
     + count_out (process_all ar (init_counter ls le mf hl) results)
     = int (length (events (process_all ar (init_counter ls le mf hl) results)))
   \<and> total_in (get_summary (process_all ar (init_counter ls le mf hl) results))
     + total_out (get_summary (process_all ar (init_counter ls le mf hl) results))
     = total_crossings (get_summary (process_all ar (init_counter ls le mf hl) results))
   \<and> running_totals (events (process_all ar (init_counter ls le mf hl) results))
   \<and> sorted (map ev_count_in (events (process_all ar (init_counter ls le mf hl) results)))
   \<and> sorted (map ev_count_out (events (process_all ar (init_counter ls le mf hl) results)))
   \<and> ev_count_in (snd (record_crossing n tid pos d c))
     = count_in (fst (record_crossing n tid pos d c))
   \<and> ev_count_out (snd (record_crossing n tid pos d c))
     = count_out (fst (record_crossing n tid pos d c))"
proof -
  let ?c = "process_all ar (init_counter ls le mf hl) results"
  have now: "ev_count_in (snd (record_crossing n tid pos d c))
       = count_in (fst (record_crossing n tid pos d c))
     \<and> ev_count_out (snd (record_crossing n tid pos d c))
       = count_out (fst (record_crossing n tid pos d c))"
    by (simp add: record_crossing_def Let_def)
  have ok: "totals_ok ?c" by (rule totals_ok_all [OF totals_ok_init])
  then have sum: "count_in ?c + count_out ?c = int (length (events ?c))"
    by (simp add: totals_ok_def count_dir_total)
  from ok have rt: "running_totals (events ?c)" by (simp add: totals_ok_def)
  from sum rt running_totals_sorted [OF rt] now show ?thesis by (simp add: get_summary_def)
qed

lemma walk_result:
  "events (process_all exact gate walk)
     = [\<lparr>ev_frame = 2, ev_track_id = 1, ev_direction = OUT, ev_position = (10, 50),
         ev_count_in = 0, ev_count_out = 1\<rparr>]"
  by (simp add: gate_def walk_def walker_def counter_defs)

theorem counter_totals_witness:
  "count_in (process_all exact gate walk) + count_out (process_all exact gate walk) = 1
   \<and> length (events (process_all exact gate walk)) = 1
   \<and> ev_count_out (events (process_all exact gate walk) ! 0) = 1
   \<and> count_dir OUT (take (Suc 0) (events (process_all exact gate walk))) = 1"
proof -
  have len: "length (events (process_all exact gate walk)) = 1"
    by (simp add: walk_result)
  from counter_totals [of exact "(0, 0)" "(0, 100)" 30 10 walk 2 1 "(10, 50)" OUT gate]
  have s: "count_in (process_all exact gate walk) + count_out (process_all exact gate walk)
        = int (length (events (process_all exact gate walk)))"
    and r: "running_totals (events (process_all exact gate walk))"
    by (simp_all only: gate_def)
  from r len have "ev_count_out (events (process_all exact gate walk) ! 0)
       = count_dir OUT (take (Suc 0) (events (process_all exact gate walk)))"
    by (simp add: running_totals_def)
  moreover have "ev_count_out (events (process_all exact gate walk) ! 0) = 1"
    by (simp add: walk_result)
  ultimately show ?thesis using s len by simp
qed


section \<open>The cooldown of the counter\<close>

lemma process_track_acc:
  "process_track ar n (c, fe) tr = (after_track ar n c tr, fe @ emitted ar n c tr)"
  by (simp add: process_track_def after_track_def emitted_def Let_def
      split: option.splits prod.splits)

lemma emitted_iff:
  "(emitted ar n c tr \<noteq> []) = (geometric_crossing ar n c tr \<and> \<not> cooling_down c n (track_id tr))"
  by (auto simp: emitted_def process_track_def geometric_crossing_def cooling_down_def
      check_line_crossing_def Let_def split: option.splits prod.splits)

lemma emitted_event:
  assumes "emitted ar n c tr \<noteq> []"
  shows "\<exists>e. emitted ar n c tr = [e] \<and> ev_frame e = n \<and> ev_track_id e = track_id tr
           \<and> last_crossing_frame (after_track ar n c tr) = (last_crossing_frame c)(track_id tr \<mapsto> n)"
  using assms
  by (auto simp: emitted_def after_track_def process_track_def record_crossing_def Let_def
      split: option.splits prod.splits if_splits)

lemma silent_step:
  assumes "emitted ar n c tr = []"
  shows "last_crossing_frame (after_track ar n c tr) = last_crossing_frame c"
  using assms
  by (auto simp: emitted_def after_track_def process_track_def record_crossing_def Let_def
      split: option.splits prod.splits if_splits)

lemma events_after: "events (after_track ar n c tr) = events c @ emitted ar n c tr"
  by (auto simp: emitted_def after_track_def process_track_def record_crossing_def Let_def
      split: option.splits prod.splits if_splits)

lemma config_after:
  "min_frames_between (after_track ar n c tr) = min_frames_between c"
  "line_start (after_track ar n c tr) = line_start c"
  "line_end (after_track ar n c tr) = line_end c"
  "history_length (after_track ar n c tr) = history_length c"
  by (auto simp: after_track_def process_track_def record_crossing_def Let_def
      split: option.splits prod.splits if_splits)

lemma track_steps_Cons:
  "track_steps ar c ((n, tr) # obs) = track_steps ar (after_track ar n c tr) obs"
  by (simp add: track_steps_def)

lemma events_track_steps: "\<exists>new. events (track_steps ar c obs) = events c @ new"
proof (induction obs arbitrary: c)
  case Nil
  show ?case by (simp add: track_steps_def)
next
  case (Cons o1 obs)
  obtain n tr where o1: "o1 = (n, tr)" by (cases o1)
  from Cons.IH [of "after_track ar n c tr"] obtain new
    where "events (track_steps ar (after_track ar n c tr) obs) = events (after_track ar n c tr) @ new"
    by blast
  then show ?case by (simp add: o1 track_steps_Cons events_after)
qed

lemma new_events_Cons:
  "new_events c (track_steps ar (after_track ar n c tr) obs)
     = emitted ar n c tr @ new_events (after_track ar n c tr) (track_steps ar (after_track ar n c tr) obs)"
proof -
  from events_track_steps [of ar "after_track ar n c tr" obs] obtain new
    where new: "events (track_steps ar (after_track ar n c tr) obs) = events (after_track ar n c tr) @ new"
    by blast
  then show ?thesis by (simp add: new_events_def events_after)
qed

lemma config_track_steps:
  "min_frames_between (track_steps ar c obs) = min_frames_between c"
  by (induction obs arbitrary: c) (auto simp: track_steps_def config_after)

lemma last_crossing_kept:
  assumes "last_crossing_frame c t = Some F"
    and "\<forall>e \<in> set (new_events c (track_steps ar c obs)). ev_track_id e \<noteq> t"
  shows "last_crossing_frame (track_steps ar c obs) t = Some F"
  using assms
proof (induction obs arbitrary: c)
  case Nil
  then show ?case by (simp add: track_steps_def)
next
  case (Cons o1 obs)
  obtain n tr where o1: "o1 = (n, tr)" by (cases o1)
  let ?c' = "after_track ar n c tr"
  from Cons.prems(2) have quiet: "\<forall>e \<in> set (emitted ar n c tr). ev_track_id e \<noteq> t"
    and rest: "\<forall>e \<in> set (new_events ?c' (track_steps ar ?c' obs)). ev_track_id e \<noteq> t"
    by (simp_all add: o1 track_steps_Cons new_events_Cons)
  have "last_crossing_frame ?c' t = Some F"
  proof (cases "emitted ar n c tr = []")
    case True
    with Cons.prems(1) show ?thesis by (simp add: silent_step)
  next
    case False
    from emitted_event [OF False] obtain e where e: "emitted ar n c tr = [e]"
        "ev_track_id e = track_id tr"
        "last_crossing_frame ?c' = (last_crossing_frame c)(track_id tr \<mapsto> n)"
      by blast
    from quiet e(1,2) have "track_id tr \<noteq> t" by auto
    with e(3) Cons.prems(1) show ?thesis by simp
  qed
  from Cons.IH [OF this rest] show ?case by (simp add: o1 track_steps_Cons)
qed

lemma cooling_quiet:
  assumes "last_crossing_frame c t = Some F"
    and "\<forall>(n, tr) \<in> set obs. n - F < min_frames_between c"
  shows "\<forall>e \<in> set (new_events c (track_steps ar c obs)). ev_track_id e \<noteq> t"
  using assms
proof (induction obs arbitrary: c)
  case Nil
  then show ?case by (simp add: track_steps_def new_events_def)
next
  case (Cons o1 obs)
  obtain n tr where o1: "o1 = (n, tr)" by (cases o1)
  let ?c' = "after_track ar n c tr"
  from Cons.prems(2) o1 have n: "n - F < min_frames_between c"
    and later: "\<forall>(n, tr) \<in> set obs. n - F < min_frames_between ?c'"
    by (simp_all add: config_after)
  have quiet: "\<forall>e \<in> set (emitted ar n c tr). ev_track_id e \<noteq> t"
  proof (cases "emitted ar n c tr = []")
    case True
    then show ?thesis by simp
  next
    case False
    then have nc: "\<not> cooling_down c n (track_id tr)" by (simp add: emitted_iff)
    have "track_id tr \<noteq> t"
    proof
      assume "track_id tr = t"
      with Cons.prems(1) n have "cooling_down c n (track_id tr)" by (simp add: cooling_down_def)
      with nc show False by simp
    qed
    with emitted_event [OF False] show ?thesis by auto
  qed
  have kept: "last_crossing_frame ?c' t = Some F"
  proof (cases "emitted ar n c tr = []")
    case True
    with Cons.prems(1) show ?thesis by (simp add: silent_step)
  next
    case False
    from emitted_event [OF False] obtain e where e: "emitted ar n c tr = [e]"
        "ev_track_id e = track_id tr"
        "last_crossing_frame ?c' = (last_crossing_frame c)(track_id tr \<mapsto> n)"
      by blast
    from quiet e(1,2) have "track_id tr \<noteq> t" by auto
    with e(3) Cons.prems(1) show ?thesis by simp
  qed
  from Cons.IH [OF kept later] quiet show ?case
    by (auto simp: o1 track_steps_Cons new_events_Cons)
qed

lemma process_frame_steps:
  "foldl (process_track ar n) (c, fe) trs
     = (track_steps ar c (map (\<lambda>tr. (n, tr)) trs),
        fe @ new_events c (track_steps ar c (map (\<lambda>tr. (n, tr)) trs)))"
proof (induction trs arbitrary: c fe)
  case Nil
  show ?case by (simp add: track_steps_def new_events_def)
next
  case (Cons tr trs)
  show ?case
    using Cons.IH [of "after_track ar n c tr" "fe @ emitted ar n c tr"]
    by (simp add: process_track_acc track_steps_Cons new_events_Cons)
qed

lemma track_steps_append:
  "track_steps ar c (xs @ ys) = track_steps ar (track_steps ar c xs) ys"
  by (simp add: track_steps_def)

lemma process_all_steps: "process_all ar c results = track_steps ar c (observations results)"
proof (induction results arbitrary: c)
  case Nil
  show ?case by (simp add: process_all_def observations_def track_steps_def)
next
  case (Cons fd rest)
  have "process_all ar c (fd # rest) = process_all ar (fst (process_frame ar (frame fd) (tracks fd) c)) rest"
    by (simp add: process_all_def)
  also have "\<dots> = track_steps ar (track_steps ar c (map (\<lambda>tr. (frame fd, tr)) (tracks fd))) (observations rest)"
    by (simp add: Cons.IH process_frame_def process_frame_steps)
  also have "\<dots> = track_steps ar c (observations (fd # rest))"
    by (simp add: observations_def track_steps_append)
  finally show ?case .
qed

text \<open>
  Claim C4. Let a track produce a counted crossing at frame \<open>F\<close>, and let the counter then
  process any observations. While their frame numbers stay below
  \<open>F + min_frames_between\<close>, none of them yields an event of this identifier. As long as
  no further event of this identifier has been logged, an observation of it at frame
  \<open>G\<close> yields no event when \<open>G - F < min_frames_between\<close>, whatever the movement, and
  yields an event at frame \<open>G\<close> when \<open>G - F \<ge> min_frames_between\<close> and the movement is a
  geometric crossing with at least two history samples.
\<close>

theorem debounce:
  assumes "emitted ar F c0 tr \<noteq> []" and "track_id tr' = track_id tr"
  shows "((\<forall>(n, x) \<in> set obs. n - F < min_frames_between c0) \<longrightarrow>
            (\<forall>e \<in> set (new_events (after_track ar F c0 tr) (track_steps ar (after_track ar F c0 tr) obs)).
                ev_track_id e \<noteq> track_id tr))
       \<and> ((\<forall>e \<in> set (new_events (after_track ar F c0 tr) (track_steps ar (after_track ar F c0 tr) obs)).
                ev_track_id e \<noteq> track_id tr) \<longrightarrow>
            (G - F < min_frames_between c0 \<longrightarrow>
               emitted ar G (track_steps ar (after_track ar F c0 tr) obs) tr' = [])
          \<and> (min_frames_between c0 \<le> G - F
               \<and> geometric_crossing ar G (track_steps ar (after_track ar F c0 tr) obs) tr' \<longrightarrow>
               (\<exists>e. emitted ar G (track_steps ar (after_track ar F c0 tr) obs) tr' = [e]
                    \<and> ev_frame e = G \<and> ev_track_id e = track_id tr)))"
proof -
  let ?c1 = "after_track ar F c0 tr"
  let ?c2 = "track_steps ar ?c1 obs"
  let ?t = "track_id tr"
  from emitted_event [OF assms(1)] have k1: "last_crossing_frame ?c1 ?t = Some F" by auto
  have m1: "min_frames_between ?c1 = min_frames_between c0" by (simp add: config_after)
  have m2: "min_frames_between ?c2 = min_frames_between c0"
    by (simp add: config_track_steps config_after)
  have a: "\<forall>e \<in> set (new_events ?c1 ?c2). ev_track_id e \<noteq> ?t"
    if "\<forall>(n, x) \<in> set obs. n - F < min_frames_between c0"
    using cooling_quiet [OF k1, of obs] that m1 by simp
  have b: "(G - F < min_frames_between c0 \<longrightarrow> emitted ar G ?c2 tr' = [])
          \<and> (min_frames_between c0 \<le> G - F \<and> geometric_crossing ar G ?c2 tr' \<longrightarrow>
               (\<exists>e. emitted ar G ?c2 tr' = [e] \<and> ev_frame e = G \<and> ev_track_id e = ?t))"
    if q: "\<forall>e \<in> set (new_events ?c1 ?c2). ev_track_id e \<noteq> ?t"
  proof -
    from last_crossing_kept [OF k1 q] have k2: "last_crossing_frame ?c2 ?t = Some F" .
    have cd: "cooling_down ?c2 G (track_id tr') = (G - F < min_frames_between c0)"
      using k2 m2 assms(2) by (simp add: cooling_down_def)
    have 1: "emitted ar G ?c2 tr' = []" if "G - F < min_frames_between c0"
      using emitted_iff [of ar G ?c2 tr'] cd that by simp
    have 2: "\<exists>e. emitted ar G ?c2 tr' = [e] \<and> ev_frame e = G \<and> ev_track_id e = ?t"
      if "min_frames_between c0 \<le> G - F \<and> geometric_crossing ar G ?c2 tr'"
    proof -
      from that cd have "emitted ar G ?c2 tr' \<noteq> []" by (simp add: emitted_iff)
      from emitted_event [OF this] assms(2) show ?thesis by auto
    qed
    from 1 2 show ?thesis by blast
  qed
  from a b show ?thesis by blast
qed

lemmas step_defs = emitted_def after_track_def track_steps_def new_events_def
  geometric_crossing_def

lemma gate_first_crossing: "emitted exact 2 (after_track exact 1 gate (walker (- 10))) (walker 10) \<noteq> []"
  by (simp add: step_defs gate_def walker_def counter_defs)

theorem debounce_witness:
  "emitted exact 2 (after_track exact 1 gate (walker (- 10))) (walker 10) \<noteq> []
   \<and> emitted exact 5 (track_steps exact (after_track exact 2 (after_track exact 1 gate (walker (- 10))) (walker 10))
                   [(3, walker 12)]) (walker (- 10)) = []
   \<and> geometric_crossing exact 32 (track_steps exact (after_track exact 2 (after_track exact 1 gate (walker (- 10))) (walker 10))
                   [(3, walker 12)]) (walker (- 10))
   \<and> (\<exists>e. emitted exact 32 (track_steps exact (after_track exact 2 (after_track exact 1 gate (walker (- 10))) (walker 10))
                   [(3, walker 12)]) (walker (- 10)) = [e]
          \<and> ev_frame e = 32 \<and> ev_track_id e = 1)"
proof -
  let ?c0 = "after_track exact 1 gate (walker (- 10))"
  let ?c2 = "track_steps exact (after_track exact 2 ?c0 (walker 10)) [(3, walker 12)]"
  have same: "track_id (walker (- 10)) = track_id (walker 10)" by (simp add: walker_def)
  have m: "min_frames_between ?c0 = 30" by (simp add: config_after gate_def init_counter_def)
  have early: "\<forall>(n, x) \<in> set [(3 :: int, walker 12)]. n - 2 < min_frames_between ?c0"
    by (simp add: m)
  have geo: "geometric_crossing exact 32 ?c2 (walker (- 10))"
    by (simp add: step_defs gate_def walker_def counter_defs)
  from debounce [OF gate_first_crossing same, of "[(3, walker 12)]" 5] early m
  have quiet: "emitted exact 5 ?c2 (walker (- 10)) = []" by simp
  from debounce [OF gate_first_crossing same, of "[(3, walker 12)]" 32] early m geo
  have "\<exists>e. emitted exact 32 ?c2 (walker (- 10)) = [e] \<and> ev_frame e = 32 \<and> ev_track_id e = 1"
    by (simp add: walker_def)
  with gate_first_crossing quiet geo show ?thesis by simp
qed

section \<open>Properties of the geometry\<close>

lemma direction_cross:
  "get_crossing_direction ar ls le pos1 pos2
     = (if f_lt ar (f_zero ar) (cross_product ar ls le pos1 pos2) then IN else OUT)"
  by (simp add: get_crossing_direction_def cross_product_def vec_sub_def Let_def)

lemma emitted_direction:
  assumes "e \<in> set (emitted ar n c tr)"
  shows "ev_direction e
     = get_crossing_direction ar (line_start c) (line_end c) (previous_center c n tr) (center tr)"
  using assms
  by (auto simp: emitted_def process_track_def check_line_crossing_def record_crossing_def
      previous_center_def Let_def split: if_splits option.splits prod.splits)

text \<open>
  Claim C5. For every line and every movement, the direction is IN exactly when
  \<open>cross = line.x * (pos2.y - pos1.y) - line.y * (pos2.x - pos1.x)\<close> is strictly positive,
  where \<open>line = line_end - line_start\<close>, and OUT otherwise, also when \<open>cross\<close> is zero.
  \<open>cross\<close> is the value that the arithmetic of the program gives, whatever this
  arithmetic is. This is the direction that the line test returns for a movement that
  intersects the line, and the direction of every event that the counter emits, for the
  movement from the previous position of the track to its present center.
\<close>

theorem crossing_direction_sign:
  "get_crossing_direction ar ls le pos1 pos2
     = (if f_lt ar (f_zero ar) (cross_product ar ls le pos1 pos2) then IN else OUT)
   \<and> check_line_crossing ar c pos1 pos2
     = (if segments_intersect ar pos1 pos2 (line_start c) (line_end c)
        then Some (if f_lt ar (f_zero ar)
                        (cross_product ar (line_start c) (line_end c) pos1 pos2)
                   then IN else OUT)
        else None)
   \<and> (\<forall>e \<in> set (emitted ar n c tr).
         ev_direction e
           = (if f_lt ar (f_zero ar)
                   (cross_product ar (line_start c) (line_end c)
                      (previous_center c n tr) (center tr))
              then IN else OUT))"
  by (simp add: direction_cross check_line_crossing_def emitted_direction)

theorem crossing_direction_sign_witness:
  "emitted exact 2 (after_track exact 1 gate (walker (- 10))) (walker 10) \<noteq> []
   \<and> list_all (\<lambda>e. ev_direction e = OUT)
        (emitted exact 2 (after_track exact 1 gate (walker (- 10))) (walker 10))
   \<and> previous_center (after_track exact 1 gate (walker (- 10))) 2 (walker 10) = (- 10, 50)
   \<and> cross_product exact (0, 0) (0, 100) (- 10, 50) (10, 50) = - 2000
   \<and> cross_product exact (0, 0) (0, 100) (0, 0) (0, 5) = 0
   \<and> get_crossing_direction exact (0, 0) (0, 100) (0, 0) (0, 5) = OUT
   \<and> get_crossing_direction exact (0, 0) (0, 100) (10, 50) (- 10, 50) = IN"
proof -
  let ?c = "after_track exact 1 gate (walker (- 10))"
  have line: "line_start ?c = (0, 0)" "line_end ?c = (0, 100)"
    by (simp_all add: config_after gate_def init_counter_def)
  have pc: "previous_center ?c 2 (walker 10) = (- 10, 50)"
    by (simp add: previous_center_def step_defs gate_def walker_def counter_defs)
  have ce: "center (walker 10) = (10, 50)" by (simp add: walker_def)
  have cp: "cross_product exact (0, 0) (0, 100) (- 10, 50) (10, 50) = - 2000"
    "cross_product exact (0, 0) (0, 100) (0, 0) (0, 5) = 0"
    "cross_product exact (0, 0) (0, 100) (10, 50) (- 10, 50) = 2000"
    by (simp_all add: cross_product_def exact_def)
  have z: "f_lt exact (f_zero exact) (0 :: real) = False" "f_lt exact (f_zero exact) (2000 :: real)"
    "f_lt exact (f_zero exact) (- 2000 :: real) = False"
    by (simp_all add: exact_def)
  from crossing_direction_sign [of exact "(0, 0)" "(0, 100)" "(0, 0)" "(0, 5)" ?c 2 "walker 10"]
    line pc ce cp z
  have d0: "get_crossing_direction exact (0, 0) (0, 100) (0, 0) (0, 5) = OUT"
    and out: "list_all (\<lambda>e. ev_direction e = OUT) (emitted exact 2 ?c (walker 10))"
    by (simp_all add: list_all_iff)
  from crossing_direction_sign [of exact "(0, 0)" "(0, 100)" "(10, 50)" "(- 10, 50)" ?c 2 "walker 10"]
    cp z
  have d1: "get_crossing_direction exact (0, 0) (0, 100) (10, 50) (- 10, 50) = IN" by simp
  from gate_first_crossing out pc cp d0 d1 show ?thesis by simp
qed

end
